theory Spec2Isabelle
  imports Complex_Main "HOL-Library.Word"
begin

unbundle bit_operations_syntax

section \<open>The packed entry word\<close>

text \<open>
  The shard table packs a 48-bit hash fragment and a 16-bit displacement (DIB) into one
  \<open>uint64\<close>. Go's \<open>uint64\<close> is \<open>64 word\<close>: \<open><<\<close> is \<open>push_bit\<close>, \<open>>>\<close> is
  \<open>drop_bit\<close>, \<open>^x\<close> is \<open>NOT x\<close>, and arithmetic wraps.
\<close>

type_synonym u64 = "64 word"

definition dibBitSize :: nat where
  "dibBitSize = 16"

definition hashBitSize :: nat where
  "hashBitSize = 64 - dibBitSize"

definition maxHash :: u64 where
  "maxHash = drop_bit dibBitSize (NOT 0)"

definition maxDIB :: u64 where
  "maxDIB = drop_bit hashBitSize (NOT 0)"

definition hashMask :: u64 where
  "hashMask = NOT maxDIB"

text \<open>
  \<open>entry[K, V]\<close>. The Go zero value of a type is the \<open>0\<close> of class \<open>zero\<close>; the
  zero-valued entry \<open>entry[K, V]{}\<close> is \<open>emptyEntry\<close>.
\<close>

record ('k, 'v) entry =
  hdib :: u64
  key :: 'k
  val :: 'v

definition emptyEntry :: "('k::zero, 'v::zero) entry" where
  "emptyEntry = \<lparr>hdib = 0, key = 0, val = 0\<rparr>"

definition dib :: "('k, 'v) entry \<Rightarrow> u64" where
  "dib e = hdib e AND maxDIB"

definition hash :: "('k, 'v) entry \<Rightarrow> u64" where
  "hash e = drop_bit dibBitSize (hdib e)"

definition setDIB :: "('k, 'v) entry \<Rightarrow> u64 \<Rightarrow> ('k, 'v) entry" where
  "setDIB e d = e\<lparr>hdib := (hdib e AND hashMask) OR (d AND maxDIB)\<rparr>"

definition setHash :: "('k, 'v) entry \<Rightarrow> u64 \<Rightarrow> ('k, 'v) entry" where
  "setHash e h = e\<lparr>hdib := push_bit dibBitSize h OR (hdib e AND maxDIB)\<rparr>"

definition makeHDIB :: "u64 \<Rightarrow> u64 \<Rightarrow> u64" where
  "makeHDIB h d = push_bit dibBitSize h OR (d AND maxDIB)"

definition makeHash :: "u64 \<Rightarrow> u64" where
  "makeHash h = drop_bit dibBitSize h"

section \<open>The float64 arithmetic of the thresholds\<close>

text \<open>
  \<open>newShard\<close> computes \<open>int(float64(len(m.buckets)) * loadFactor)\<close>. The binary64
  values that occur are finite and non-negative; \<open>(m, e)\<close> stands for \<open>m * 2 ^ e\<close>.
  \<open>round53\<close> rounds a value to 53 significant bits, ties to even, as every binary64
  operation does (exponent range is not an issue for the magnitudes here).
\<close>

type_synonym float64 = "nat \<times> int"

fun bits :: "nat \<Rightarrow> nat" where
  "bits n = (if n = 0 then 0 else Suc (bits (n div 2)))"

declare bits.simps [simp del]

definition round53 :: "float64 \<Rightarrow> float64" where
  "round53 x =
     (let m = fst x; e = snd x; s = bits m - 53 in
      if s = 0 then (m, e)
      else
        let q = m div 2 ^ s; r = m mod 2 ^ s; h = 2 ^ (s - 1) in
        (if h < r \<or> (r = h \<and> odd q) then q + 1 else q, e + int s))"

text \<open>
  An untyped Go constant is an exact rational; used as a \<open>float64\<close> it is rounded once.
  \<open>float64_const p q\<close> is the binary64 nearest to \<open>p / q\<close> (for \<open>2 ^ -60 < p / q < 2 ^ 60\<close>):
  the quotient is taken with 117 fractional bits and a sticky bit, then rounded.
\<close>

definition float64_const :: "nat \<Rightarrow> nat \<Rightarrow> float64" where
  "float64_const p q =
     round53 (2 * (p * 2 ^ 116 div q) + (if p * 2 ^ 116 mod q = 0 then 0 else 1), - 117)"

definition float64_of_int :: "int \<Rightarrow> float64" where
  "float64_of_int n = round53 (nat n, 0)"

definition float64_mul :: "float64 \<Rightarrow> float64 \<Rightarrow> float64" where
  "float64_mul a b = round53 (fst a * fst b, snd a + snd b)"

definition int_of_float64 :: "float64 \<Rightarrow> int" where
  "int_of_float64 x =
     (if 0 \<le> snd x then int (fst x) * 2 ^ nat (snd x)
      else int (fst x div 2 ^ nat (- snd x)))"

text \<open>\<open>loadFactor = 0.85\<close>; \<open>1 - loadFactor\<close> is the exact constant \<open>0.15\<close>.\<close>

definition loadFactor :: float64 where
  "loadFactor = float64_const 17 20"

definition oneMinusLoadFactor :: float64 where
  "oneMinusLoadFactor = float64_const 3 20"

section \<open>The shard table\<close>

record ('k, 'v) mapShard =
  scap :: int
  slength :: int
  growAt :: int
  shrinkAt :: int
  smask :: u64
  buckets :: "('k, 'v) entry list"

text \<open>
  The sizing loop of \<open>newShard\<close>: \<open>sz := 8; for sz < m.cap { sz *= 2 }\<close>. \<open>sz\<close> is 8 at
  entry and only doubles; the test \<open>0 < sz\<close> is true there and makes the recursion
  well-founded for every argument. The integers are unbounded here and 64 bits wide in
  Go: the two agree for every hint up to \<open>2 ^ 62\<close>, beyond which the doubling in Go
  wraps (a bucket array for such a hint could not be allocated). The theorems below that
  depend on the size of the table take hints of at most \<open>2 ^ 48\<close>.
\<close>

function newShard_sz :: "int \<Rightarrow> int \<Rightarrow> int" where
  "newShard_sz sz c = (if 0 < sz \<and> sz < c then newShard_sz (sz * 2) c else sz)"
  by pat_completeness auto
termination
  by (relation "measure (\<lambda>(sz, c). nat (c - sz))") auto

declare newShard_sz.simps [simp del]

definition newShard :: "int \<Rightarrow> ('k::zero, 'v::zero) mapShard" where
  "newShard c =
     (let sz = newShard_sz 8 c;
          bs = replicate (nat sz) emptyEntry
      in \<lparr>scap = c, slength = 0,
          growAt = int_of_float64 (float64_mul (float64_of_int (int (length bs))) loadFactor),
          shrinkAt = int_of_float64 (float64_mul (float64_of_int (int (length bs))) oneMinusLoadFactor),
          smask = word_of_nat (length bs) - 1,
          buckets = bs\<rparr>)"


section \<open>Results of calls\<close>

text \<open>
  A call either never returns (\<open>None\<close>), panics (\<open>Some (Inl e)\<close>: Go's run-time panic on
  an index out of range), or returns (\<open>Some (Inr r)\<close>). The receiver is mutated in place
  in Go; here every mutating call returns the updated receiver.
\<close>

datatype error = IndexOutOfRange

definition bindR :: "(error + 'a) option \<Rightarrow> ('a \<Rightarrow> (error + 'b) option) \<Rightarrow> (error + 'b) option" where
  "bindR x f = (case x of None \<Rightarrow> None | Some (Inl e) \<Rightarrow> Some (Inl e) | Some (Inr a) \<Rightarrow> f a)"

subsection \<open>set\<close>

text \<open>The \<open>for { ... }\<close> loop of \<open>set\<close>, entered with the candidate \<open>e\<close> at index \<open>i\<close>.\<close>

partial_function (option) set_loop ::
  "('k::zero, 'v::zero) mapShard \<Rightarrow> ('k, 'v) entry \<Rightarrow> u64 \<Rightarrow>
     (error + ('v \<times> bool) \<times> ('k, 'v) mapShard) option" where
  "set_loop m e i =
     (if length (buckets m) \<le> unat i then Some (Inl IndexOutOfRange)
      else if dib (buckets m ! unat i) = 0 then
        Some (Inr ((0, False),
          m\<lparr>buckets := (buckets m)[unat i := e], slength := slength m + 1\<rparr>))
      else if hash e = hash (buckets m ! unat i) \<and> key e = key (buckets m ! unat i) then
        Some (Inr ((val (buckets m ! unat i), True),
          m\<lparr>buckets := (buckets m)[unat i := (buckets m ! unat i)\<lparr>val := val e\<rparr>]\<rparr>))
      else if dib (buckets m ! unat i) < dib e then
        set_loop (m\<lparr>buckets := (buckets m)[unat i := e]\<rparr>)
          (setDIB (buckets m ! unat i) (dib (buckets m ! unat i) + 1))
          ((i + 1) AND smask m)
      else
        set_loop m (setDIB e (dib e + 1)) ((i + 1) AND smask m))"

declare set_loop.simps [code]

definition set_shard ::
  "('k::zero, 'v::zero) mapShard \<Rightarrow> u64 \<Rightarrow> 'k \<Rightarrow> 'v \<Rightarrow>
     (error + ('v \<times> bool) \<times> ('k, 'v) mapShard) option" where
  "set_shard m h k v =
     (let e = \<lparr>hdib = makeHDIB h 1, key = k, val = v\<rparr>
      in set_loop m e (hash e AND smask m))"

subsection \<open>resize and SetWithHash\<close>

text \<open>The loop of \<open>resize\<close> over the old buckets, in index order.\<close>

fun resize_fill ::
  "('k::zero, 'v::zero) entry list \<Rightarrow> ('k, 'v) mapShard \<Rightarrow> (error + ('k, 'v) mapShard) option" where
  "resize_fill [] nmap = Some (Inr nmap)"
| "resize_fill (b # bs) nmap =
     (if 0 < dib b then
        bindR (set_shard nmap (hash b) (key b) (val b)) (\<lambda>r. resize_fill bs (snd r))
      else resize_fill bs nmap)"

definition resize ::
  "('k::zero, 'v::zero) mapShard \<Rightarrow> int \<Rightarrow> (error + ('k, 'v) mapShard) option" where
  "resize m newCap =
     bindR (resize_fill (buckets m) (newShard newCap)) (\<lambda>nmap. Some (Inr (nmap\<lparr>scap := scap m\<rparr>)))"

definition SetWithHash ::
  "('k::zero, 'v::zero) mapShard \<Rightarrow> u64 \<Rightarrow> 'k \<Rightarrow> 'v \<Rightarrow>
     (error + ('v \<times> bool) \<times> ('k, 'v) mapShard) option" where
  "SetWithHash m h k v =
     (let m1 = (if length (buckets m) = 0 then newShard 0 else m) in
      bindR (if growAt m1 \<le> slength m1 then resize m1 (int (length (buckets m1)) * 2)
             else Some (Inr m1))
        (\<lambda>m2. set_shard m2 h k v))"

subsection \<open>GetWithHash\<close>

partial_function (option) get_loop ::
  "('k::zero, 'v::zero) mapShard \<Rightarrow> u64 \<Rightarrow> 'k \<Rightarrow> u64 \<Rightarrow> (error + 'v \<times> bool) option" where
  "get_loop m h k i =
     (if length (buckets m) \<le> unat i then Some (Inl IndexOutOfRange)
      else if dib (buckets m ! unat i) = 0 then Some (Inr (0, False))
      else if hash (buckets m ! unat i) = h \<and> key (buckets m ! unat i) = k then
        Some (Inr (val (buckets m ! unat i), True))
      else get_loop m h k ((i + 1) AND smask m))"

declare get_loop.simps [code]

definition GetWithHash ::
  "('k::zero, 'v::zero) mapShard \<Rightarrow> u64 \<Rightarrow> 'k \<Rightarrow> (error + 'v \<times> bool) option" where
  "GetWithHash m h k =
     (if length (buckets m) = 0 then Some (Inr (0, False))
      else get_loop m h k (h AND smask m))"

definition Len_shard :: "('k, 'v) mapShard \<Rightarrow> int" where
  "Len_shard m = slength m"

subsection \<open>remove and DeleteWithHash\<close>

text \<open>The backward-shift loop of \<open>remove\<close>, entered with the gap at index \<open>i\<close>.\<close>

partial_function (option) remove_loop ::
  "('k::zero, 'v::zero) mapShard \<Rightarrow> u64 \<Rightarrow> (error + ('k, 'v) mapShard) option" where
  "remove_loop m i =
     (let pi = i; i' = (i + 1) AND smask m in
      if length (buckets m) \<le> unat i' then Some (Inl IndexOutOfRange)
      else if length (buckets m) \<le> unat pi then Some (Inl IndexOutOfRange)
      else if dib (buckets m ! unat i') \<le> 1 then
        Some (Inr (m\<lparr>buckets := (buckets m)[unat pi := emptyEntry]\<rparr>))
      else
        remove_loop
          (m\<lparr>buckets := (buckets m)[unat pi :=
               setDIB (buckets m ! unat i') (dib (buckets m ! unat i') - 1)]\<rparr>)
          i')"

declare remove_loop.simps [code]

definition remove ::
  "('k::zero, 'v::zero) mapShard \<Rightarrow> u64 \<Rightarrow> (error + ('k, 'v) mapShard) option" where
  "remove m i =
     (if length (buckets m) \<le> unat i then Some (Inl IndexOutOfRange)
      else
        bindR (remove_loop (m\<lparr>buckets := (buckets m)[unat i := setDIB (buckets m ! unat i) 0]\<rparr>) i)
          (\<lambda>m1. let m2 = m1\<lparr>slength := slength m1 - 1\<rparr> in
             if scap m2 < int (length (buckets m2)) \<and> slength m2 \<le> shrinkAt m2
             then resize m2 (slength m2)
             else Some (Inr m2)))"

partial_function (option) delete_loop ::
  "('k::zero, 'v::zero) mapShard \<Rightarrow> u64 \<Rightarrow> 'k \<Rightarrow> u64 \<Rightarrow>
     (error + ('v \<times> bool) \<times> ('k, 'v) mapShard) option" where
  "delete_loop m h k i =
     (if length (buckets m) \<le> unat i then Some (Inl IndexOutOfRange)
      else if dib (buckets m ! unat i) = 0 then Some (Inr ((0, False), m))
      else if hash (buckets m ! unat i) = h \<and> key (buckets m ! unat i) = k then
        (case remove m i of
           None \<Rightarrow> None
         | Some (Inl err) \<Rightarrow> Some (Inl err)
         | Some (Inr m') \<Rightarrow> Some (Inr ((val (buckets m ! unat i), True), m')))
      else delete_loop m h k ((i + 1) AND smask m))"

declare delete_loop.simps [code]

definition DeleteWithHash ::
  "('k::zero, 'v::zero) mapShard \<Rightarrow> u64 \<Rightarrow> 'k \<Rightarrow>
     (error + ('v \<times> bool) \<times> ('k, 'v) mapShard) option" where
  "DeleteWithHash m h k =
     (if length (buckets m) = 0 then Some (Inr ((0, False), m))
      else delete_loop m h k (h AND smask m))"


section \<open>The sharded map\<close>

text \<open>
  \<open>Map[K, V]\<close>. The locks (\<open>mus\<close>, \<open>init\<close>) order concurrent callers and hold no data;
  the calls are modelled as they run one at a time. \<open>hasher\<close> is
  \<open>xxh3.HashString\<close> applied to the byte view of the key that \<open>detectHasher\<close> selects
  (fields \<open>kstr\<close>, \<open>ksize\<close>); the library is not part of the repository, so any function
  to \<open>uint64\<close> may stand for it.
\<close>

record ('k, 'v) Map =
  cap :: int
  shards :: int
  shardIDMax :: u64
  maps :: "('k, 'v) mapShard list"
  hasher :: "'k \<Rightarrow> u64"

text \<open>
  \<open>m.shards = 1; for m.shards < runtime.NumCPU()*16 { m.shards *= 2 }\<close>, with the same
  remark on \<open>0 < s\<close> as for \<open>newShard_sz\<close>.
\<close>

function Init_shards :: "int \<Rightarrow> int \<Rightarrow> int" where
  "Init_shards s n = (if 0 < s \<and> s < n then Init_shards (s * 2) n else s)"
  by pat_completeness auto
termination
  by (relation "measure (\<lambda>(s, n). nat (n - s))") auto

declare Init_shards.simps [simp del]

text \<open>Go's integer division truncates towards zero.\<close>

definition go_div :: "int \<Rightarrow> int \<Rightarrow> int" where
  "go_div a b = sgn a * sgn b * (\<bar>a\<bar> div \<bar>b\<bar>)"

text \<open>
  \<open>New(cap)\<close> followed by \<open>Init\<close>, on a machine where \<open>runtime.NumCPU()\<close> is \<open>ncpu\<close>.
\<close>

definition Init :: "('k \<Rightarrow> u64) \<Rightarrow> int \<Rightarrow> int \<Rightarrow> ('k::zero, 'v::zero) Map" where
  "Init H ncpu c =
     (let sh = Init_shards 1 (ncpu * 16);
          scap = go_div c sh
      in \<lparr>cap = c, shards = sh, shardIDMax = word_of_int (sh - 1),
          maps = replicate (nat sh) (newShard scap), hasher = H\<rparr>)"

definition choose_shard :: "('k, 'v) Map \<Rightarrow> 'k \<Rightarrow> u64 \<times> u64" where
  "choose_shard m k = (let gkey = hasher m k in (gkey AND shardIDMax m, makeHash gkey))"

text \<open>\<open>m.maps[shard].f(...)\<close>: index the shard, run \<open>f\<close> on it, keep the mutated shard.\<close>

definition on_shard ::
  "('k, 'v) Map \<Rightarrow> u64 \<Rightarrow> (('k, 'v) mapShard \<Rightarrow> (error + 'r \<times> ('k, 'v) mapShard) option) \<Rightarrow>
     (error + 'r \<times> ('k, 'v) Map) option" where
  "on_shard m shard f =
     (if length (maps m) \<le> unat shard then Some (Inl IndexOutOfRange)
      else bindR (f (maps m ! unat shard))
        (\<lambda>r. Some (Inr (fst r, m\<lparr>maps := (maps m)[unat shard := snd r]\<rparr>))))"

definition Set ::
  "('k::zero, 'v::zero) Map \<Rightarrow> 'k \<Rightarrow> 'v \<Rightarrow> (error + ('v \<times> bool) \<times> ('k, 'v) Map) option" where
  "Set m k v =
     (let (shard, shardKey) = choose_shard m k
      in on_shard m shard (\<lambda>s. SetWithHash s shardKey k v))"

definition Get :: "('k::zero, 'v::zero) Map \<Rightarrow> 'k \<Rightarrow> (error + 'v \<times> bool) option" where
  "Get m k =
     (let (shard, shardKey) = choose_shard m k
      in if length (maps m) \<le> unat shard then Some (Inl IndexOutOfRange)
         else GetWithHash (maps m ! unat shard) shardKey k)"

definition Delete ::
  "('k::zero, 'v::zero) Map \<Rightarrow> 'k \<Rightarrow> (error + ('v \<times> bool) \<times> ('k, 'v) Map) option" where
  "Delete m k =
     (let (shard, shardKey) = choose_shard m k
      in on_shard m shard (\<lambda>s. DeleteWithHash s shardKey k))"

text \<open>
  \<open>SetAccept\<close>: the \<open>accept\<close> argument is \<open>None\<close> for Go's \<open>nil\<close>. A rejected change is
  reverted on the same shard and the call returns \<open>(result, false)\<close> with \<open>result\<close> the
  zero value.
\<close>

definition SetAccept ::
  "('k::zero, 'v::zero) Map \<Rightarrow> 'k \<Rightarrow> 'v \<Rightarrow> ('v \<Rightarrow> bool \<Rightarrow> bool) option \<Rightarrow>
     (error + ('v \<times> bool) \<times> ('k, 'v) Map) option" where
  "SetAccept m k v accept =
     (let (shard, shardKey) = choose_shard m k
      in on_shard m shard (\<lambda>s.
           bindR (SetWithHash s shardKey k v) (\<lambda>((prev, replaced), s1).
             case accept of
               None \<Rightarrow> Some (Inr ((prev, replaced), s1))
             | Some acc \<Rightarrow>
                 if \<not> acc prev replaced then
                   bindR (if \<not> replaced then DeleteWithHash s1 shardKey k
                          else SetWithHash s1 shardKey k prev)
                     (\<lambda>r. Some (Inr ((0, False), snd r)))
                 else Some (Inr ((prev, replaced), s1)))))"

definition DeleteAccept ::
  "('k::zero, 'v::zero) Map \<Rightarrow> 'k \<Rightarrow> ('v \<Rightarrow> bool \<Rightarrow> bool) option \<Rightarrow>
     (error + ('v \<times> bool) \<times> ('k, 'v) Map) option" where
  "DeleteAccept m k accept =
     (let (shard, shardKey) = choose_shard m k
      in on_shard m shard (\<lambda>s.
           bindR (DeleteWithHash s shardKey k) (\<lambda>((prev, deleted), s1).
             case accept of
               None \<Rightarrow> Some (Inr ((prev, deleted), s1))
             | Some acc \<Rightarrow>
                 if \<not> acc prev deleted then
                   bindR (if deleted then SetWithHash s1 shardKey k prev
                          else Some (Inr ((prev, deleted), s1)))
                     (\<lambda>r. Some (Inr ((0, False), snd r)))
                 else Some (Inr ((prev, deleted), s1)))))"

text \<open>\<open>Len\<close> adds \<open>m.maps[i].Len()\<close> for \<open>i\<close> below \<open>m.shards\<close>.\<close>

definition Len :: "('k, 'v) Map \<Rightarrow> error + int" where
  "Len m =
     (if length (maps m) < nat (shards m) then Inl IndexOutOfRange
      else Inr (sum_list (map Len_shard (take (nat (shards m)) (maps m)))))"

definition Clear :: "('k::zero, 'v::zero) Map \<Rightarrow> error + ('k, 'v) Map" where
  "Clear m =
     (if length (maps m) < nat (shards m) then Inl IndexOutOfRange
      else Inr (m\<lparr>maps := replicate (nat (shards m)) (newShard (go_div (cap m) (shards m)))
                          @ drop (nat (shards m)) (maps m)\<rparr>))"


section \<open>Auxiliary notions of the specification\<close>

text \<open>
  The specification's \<open>shard_bits = log2(shard_count)\<close>, in its own words; the code has
  no such quantity.
\<close>

fun log2 :: "int \<Rightarrow> nat" where
  "log2 n = (if n \<le> 1 then 0 else Suc (log2 (n div 2)))"

declare log2.simps [simp del]

definition shard_bits :: "('k, 'v) Map \<Rightarrow> nat" where
  "shard_bits m = log2 (shards m)"

text \<open>
  What \<open>Init\<close> establishes about the routing fields and no operation changes: the shard
  count is positive, the mask is the count minus one, and there is one table per shard.
\<close>

definition initialized :: "('k, 'v) Map \<Rightarrow> bool" where
  "initialized m \<longleftrightarrow>
     0 < shards m \<and> shardIDMax m = word_of_int (shards m - 1) \<and>
     length (maps m) = nat (shards m)"

section \<open>Notions used in the proofs\<close>

text \<open>
  The shape every table built by \<open>newShard\<close> has: a power-of-two bucket array and the
  matching mask. Go's \<open>len\<close> is an \<open>int\<close>, so the exponent is below 64.
\<close>

definition shaped :: "('k, 'v) mapShard \<Rightarrow> bool" where
  "shaped m \<longleftrightarrow> (\<exists>j<64. length (buckets m) = 2 ^ j \<and> smask m = mask j)"

text \<open>The number of occupied buckets: those with a nonzero displacement field.\<close>

definition occupied :: "('k, 'v) mapShard \<Rightarrow> nat" where
  "occupied m = length (filter (\<lambda>b. dib b \<noteq> 0) (buckets m))"

text \<open>
  The loop of \<open>set\<close> cut off after a number of iterations: \<open>set_loop_within f\<close> makes at
  most \<open>f\<close> passes through the loop body and is \<open>None\<close> if the loop has not returned by
  then. It is used to count iterations only.
\<close>

fun set_loop_within ::
  "nat \<Rightarrow> ('k::zero, 'v::zero) mapShard \<Rightarrow> ('k, 'v) entry \<Rightarrow> u64 \<Rightarrow>
     (error + ('v \<times> bool) \<times> ('k, 'v) mapShard) option" where
  "set_loop_within 0 m e i = None"
| "set_loop_within (Suc f) m e i =
     (if length (buckets m) \<le> unat i then Some (Inl IndexOutOfRange)
      else if dib (buckets m ! unat i) = 0 then
        Some (Inr ((0, False),
          m\<lparr>buckets := (buckets m)[unat i := e], slength := slength m + 1\<rparr>))
      else if hash e = hash (buckets m ! unat i) \<and> key e = key (buckets m ! unat i) then
        Some (Inr ((val (buckets m ! unat i), True),
          m\<lparr>buckets := (buckets m)[unat i := (buckets m ! unat i)\<lparr>val := val e\<rparr>]\<rparr>))
      else if dib (buckets m ! unat i) < dib e then
        set_loop_within f (m\<lparr>buckets := (buckets m)[unat i := e]\<rparr>)
          (setDIB (buckets m ! unat i) (dib (buckets m ! unat i) + 1))
          ((i + 1) AND smask m)
      else
        set_loop_within f m (setDIB e (dib e + 1)) ((i + 1) AND smask m))"

section \<open>Runs of operations\<close>

text \<open>\<open>SetWithHash\<close> for each \<open>(hash, key, value)\<close> of a list, in order, on one table.\<close>

fun SetWithHash_all ::
  "('k::zero, 'v::zero) mapShard \<Rightarrow> (u64 \<times> 'k \<times> 'v) list \<Rightarrow> (error + ('k, 'v) mapShard) option" where
  "SetWithHash_all m [] = Some (Inr m)"
| "SetWithHash_all m ((h, k, v) # xs) =
     bindR (SetWithHash m h k v) (\<lambda>r. SetWithHash_all (snd r) xs)"

text \<open>\<open>Set\<close> for each \<open>(key, value)\<close> of a list, in order, on one map.\<close>

fun Set_all ::
  "('k::zero, 'v::zero) Map \<Rightarrow> ('k \<times> 'v) list \<Rightarrow> (error + ('k, 'v) Map) option" where
  "Set_all m [] = Some (Inr m)"
| "Set_all m ((k, v) # xs) = bindR (Set m k v) (\<lambda>r. Set_all (snd r) xs)"

text \<open>
  Nine keys whose digests (the keys themselves, under the identity hasher) have the low
  16 bits zero: all are routed to shard 0, with the intra-shard hashes 1 to 9.
\<close>

definition nine_keys :: "(u64 \<times> nat) list" where
  "nine_keys = [(0x10000, 1), (0x20000, 2), (0x30000, 3), (0x40000, 4), (0x50000, 5),
                (0x60000, 6), (0x70000, 7), (0x80000, 8), (0x90000, 9)]"

definition nine_entries :: "(u64 \<times> u64 \<times> nat) list" where
  "nine_entries = map (\<lambda>(k, v). (makeHash k, k, v)) nine_keys"

text \<open>
  The table \<open>newShard(40)\<close> after \<open>SetWithHash\<close> of the nine entries, and the table that
  deleting the ninth of them leaves.
\<close>

definition nine_table :: "(u64, nat) mapShard" where
  "nine_table =
     \<lparr>scap = 40, slength = 9, growAt = 54, shrinkAt = 9, smask = 63,
      buckets = (replicate 64 emptyEntry)
        [1 := \<lparr>hdib = makeHDIB 1 1, key = 0x10000, val = 1\<rparr>,
         2 := \<lparr>hdib = makeHDIB 2 1, key = 0x20000, val = 2\<rparr>,
         3 := \<lparr>hdib = makeHDIB 3 1, key = 0x30000, val = 3\<rparr>,
         4 := \<lparr>hdib = makeHDIB 4 1, key = 0x40000, val = 4\<rparr>,
         5 := \<lparr>hdib = makeHDIB 5 1, key = 0x50000, val = 5\<rparr>,
         6 := \<lparr>hdib = makeHDIB 6 1, key = 0x60000, val = 6\<rparr>,
         7 := \<lparr>hdib = makeHDIB 7 1, key = 0x70000, val = 7\<rparr>,
         8 := \<lparr>hdib = makeHDIB 8 1, key = 0x80000, val = 8\<rparr>,
         9 := \<lparr>hdib = makeHDIB 9 1, key = 0x90000, val = 9\<rparr>]\<rparr>"

definition full_table :: "(u64, nat) mapShard" where
  "full_table =
     \<lparr>scap = 40, slength = 8, growAt = 6, shrinkAt = 1, smask = 7,
      buckets =
        [\<lparr>hdib = makeHDIB 8 1, key = 0x80000, val = 8\<rparr>,
         \<lparr>hdib = makeHDIB 1 1, key = 0x10000, val = 1\<rparr>,
         \<lparr>hdib = makeHDIB 2 1, key = 0x20000, val = 2\<rparr>,
         \<lparr>hdib = makeHDIB 3 1, key = 0x30000, val = 3\<rparr>,
         \<lparr>hdib = makeHDIB 4 1, key = 0x40000, val = 4\<rparr>,
         \<lparr>hdib = makeHDIB 5 1, key = 0x50000, val = 5\<rparr>,
         \<lparr>hdib = makeHDIB 6 1, key = 0x60000, val = 6\<rparr>,
         \<lparr>hdib = makeHDIB 7 1, key = 0x70000, val = 7\<rparr>]\<rparr>"

text \<open>
  \<open>New(640)\<close> on a machine with one CPU, with the identity as hasher: 16 shards, each
  built by \<open>newShard(40)\<close>. \<open>full_map\<close> is that map with \<open>full_table\<close> as shard 0.
\<close>

definition small_map :: "(u64, nat) Map" where
  "small_map = Init (\<lambda>k. k) 1 640"

definition full_map :: "(u64, nat) Map" where
  "full_map = small_map\<lparr>maps := (maps small_map)[0 := full_table]\<rparr>"

section \<open>The Robin Hood invariant\<close>

text \<open>The displacement field of an entry as a number, and the home bucket of its hash.\<close>

definition dibn :: "('k, 'v) entry \<Rightarrow> nat" where
  "dibn b = unat (dib b)"

definition home :: "nat \<Rightarrow> ('k, 'v) entry \<Rightarrow> nat" where
  "home n b = unat (hash b) mod n"

text \<open>
  \<open>placed\<close>: the displacement of every occupied bucket is its distance from the home
  bucket, plus one. \<open>ordered\<close>: from one bucket to the next the displacement grows by
  at most one (an empty bucket counts as 0), which is what Robin Hood insertion and
  backward-shift deletion maintain. \<open>unique\<close>: no two occupied buckets hold the same hash
  and key. \<open>anchored\<close>: some bucket is empty or holds an entry at its home.
\<close>

definition placed :: "('k, 'v) entry list \<Rightarrow> bool" where
  "placed bs \<longleftrightarrow>
     (\<forall>p<length bs. dib (bs ! p) \<noteq> 0 \<longrightarrow>
        dibn (bs ! p) = (p + length bs - home (length bs) (bs ! p)) mod length bs + 1)"

definition ordered :: "('k, 'v) entry list \<Rightarrow> bool" where
  "ordered bs \<longleftrightarrow> (\<forall>p<length bs. dibn (bs ! (Suc p mod length bs)) \<le> dibn (bs ! p) + 1)"

definition unique :: "('k, 'v) entry list \<Rightarrow> bool" where
  "unique bs \<longleftrightarrow>
     (\<forall>p<length bs. \<forall>q<length bs.
        dib (bs ! p) \<noteq> 0 \<and> dib (bs ! q) \<noteq> 0 \<and>
        hash (bs ! p) = hash (bs ! q) \<and> key (bs ! p) = key (bs ! q) \<longrightarrow> p = q)"

definition anchored :: "('k, 'v) entry list \<Rightarrow> bool" where
  "anchored bs \<longleftrightarrow> (\<exists>p<length bs. dibn (bs ! p) \<le> 1)"

text \<open>
  The invariant of a shard table of at most \<open>2 ^ 16\<close> buckets: the shape and thresholds
  that \<open>newShard\<close> computes, a length field that counts the occupied buckets, and the
  four properties above.
\<close>

definition robin_hood :: "('k, 'v) mapShard \<Rightarrow> bool" where
  "robin_hood m \<longleftrightarrow>
     shaped m \<and> 8 \<le> length (buckets m) \<and> length (buckets m) \<le> 65536 \<and>
     growAt m = int (length (buckets m)) * 17 div 20 \<and>
     shrinkAt m = int (length (buckets m)) * 3 div 20 \<and>
     slength m = int (occupied m) \<and>
     placed (buckets m) \<and> ordered (buckets m) \<and> unique (buckets m) \<and> anchored (buckets m)"

text \<open>The key/value content of a table: what is stored under a hash and key.\<close>

definition content :: "('k, 'v) mapShard \<Rightarrow> u64 \<times> 'k \<Rightarrow> 'v option" where
  "content m = (\<lambda>(h, k).
     map_option val (find (\<lambda>b. dib b \<noteq> 0 \<and> hash b = h \<and> key b = k) (buckets m)))"

text \<open>Bucket \<open>p\<close> is occupied by the entry with hash \<open>h\<close> and key \<open>k\<close>.\<close>

definition holds :: "('k, 'v) entry list \<Rightarrow> nat \<Rightarrow> u64 \<Rightarrow> 'k \<Rightarrow> bool" where
  "holds bs p h k \<longleftrightarrow> p < length bs \<and> dib (bs ! p) \<noteq> 0 \<and> hash (bs ! p) = h \<and> key (bs ! p) = k"

text \<open>
  The stored \<open>(hash, key, value)\<close> triples of a bucket list, and those stored in buckets
  other than \<open>q\<close>.
\<close>

definition entries :: "('k, 'v) entry list \<Rightarrow> (u64 \<times> 'k \<times> 'v) set" where
  "entries bs = {(hash (bs ! p), key (bs ! p), val (bs ! p)) | p. p < length bs \<and> dib (bs ! p) \<noteq> 0}"

definition others :: "('k, 'v) entry list \<Rightarrow> nat \<Rightarrow> (u64 \<times> 'k \<times> 'v) set" where
  "others bs q =
     {(hash (bs ! p), key (bs ! p), val (bs ! p)) | p. p < length bs \<and> p \<noteq> q \<and> dib (bs ! p) \<noteq> 0}"

text \<open>
  What a call leaves alone, and what the insertion of the triple \<open>t\<close> as a new entry
  does to a shard.
\<close>

definition framed :: "('k, 'v) mapShard \<Rightarrow> ('k, 'v) mapShard \<Rightarrow> bool" where
  "framed m m' \<longleftrightarrow>
     length (buckets m') = length (buckets m) \<and> smask m' = smask m \<and> scap m' = scap m \<and>
     growAt m' = growAt m \<and> shrinkAt m' = shrinkAt m"

definition inserted :: "('k, 'v) mapShard \<Rightarrow> u64 \<times> 'k \<times> 'v \<Rightarrow> ('k, 'v) mapShard \<Rightarrow> bool" where
  "inserted m t m' \<longleftrightarrow>
     framed m m' \<and> slength m' = slength m + 1 \<and> occupied m' = occupied m + 1 \<and>
     placed (buckets m') \<and> ordered (buckets m') \<and> unique (buckets m') \<and> anchored (buckets m') \<and>
     entries (buckets m') = insert t (entries (buckets m))"

text \<open>The shard after the value in bucket \<open>p\<close> has been replaced by \<open>v\<close>.\<close>

definition revalued :: "('k, 'v) mapShard \<Rightarrow> nat \<Rightarrow> 'v \<Rightarrow> ('k, 'v) mapShard" where
  "revalued m p v = m\<lparr>buckets := (buckets m)[p := (buckets m ! p)\<lparr>val := v\<rparr>]\<rparr>"

text \<open>
  The backward shift of \<open>remove\<close>. \<open>gapped L g\<close>: bucket \<open>g\<close> of \<open>L\<close> is the gap, and \<open>L\<close>
  satisfies the invariant except between the gap and its successor. \<open>stops L g d\<close>: the
  shift that starts at the gap \<open>g\<close> ends after at most \<open>d\<close> steps. \<open>shifted L g\<close>: one step,
  which moves the successor of the gap into the gap.
\<close>

definition gapped :: "('k, 'v) entry list \<Rightarrow> nat \<Rightarrow> bool" where
  "gapped L g \<longleftrightarrow>
     g < length L \<and> dib (L ! g) = 0 \<and> placed L \<and> unique L \<and>
     (\<forall>p<length L. p \<noteq> g \<longrightarrow> dibn (L ! (Suc p mod length L)) \<le> dibn (L ! p) + 1) \<and>
     (\<forall>p<length L. Suc p mod length L = g \<longrightarrow>
        dibn (L ! (Suc g mod length L)) \<le> dibn (L ! p) + 2)"

definition stops :: "('k, 'v) entry list \<Rightarrow> nat \<Rightarrow> nat \<Rightarrow> bool" where
  "stops L g d \<longleftrightarrow>
     1 \<le> d \<and> d \<le> length L \<and>
     (d < length L \<longrightarrow> dibn (L ! ((g + d) mod length L)) \<le> 1) \<and>
     (d = length L \<longrightarrow> dibn (L ! (Suc g mod length L)) \<le> 2)"

definition shifted :: "('k::zero, 'v::zero) entry list \<Rightarrow> nat \<Rightarrow> ('k, 'v) entry list" where
  "shifted L g =
     L[Suc g mod length L := emptyEntry,
       g := setDIB (L ! (Suc g mod length L)) (dib (L ! (Suc g mod length L)) - 1)]"

text \<open>
  What the grow check of \<open>SetWithHash\<close> relies on: the bucket array is a power of two
  with the matching mask, the grow threshold is below the bucket-array length, the
  shrink threshold is not above it, and the length field is at least the number of
  occupied buckets.
\<close>

definition sized :: "('k, 'v) mapShard \<Rightarrow> bool" where
  "sized m \<longleftrightarrow>
     shaped m \<and> growAt m < int (length (buckets m)) \<and>
     shrinkAt m \<le> int (length (buckets m)) \<and> int (occupied m) \<le> slength m"

section \<open>Keys that pile up on one bucket\<close>

text \<open>
  The keys \<open>t * 2 ^ 33\<close> under the identity hasher: all are routed to shard 0, and their
  intra-shard hashes \<open>t * 2 ^ 17\<close> have bucket 0 as home in every table of at most
  \<open>2 ^ 17\<close> buckets. \<open>pile n j\<close> is the bucket array of length \<open>n\<close> that holds the first
  \<open>j\<close> of them, the entry for key \<open>t\<close> in bucket \<open>t\<close> with the displacement \<open>t + 1\<close>
  as \<open>makeHDIB\<close> stores it.
\<close>

definition ckey :: "nat \<Rightarrow> u64" where
  "ckey t = word_of_nat (t * 2 ^ 33)"

definition chash :: "nat \<Rightarrow> u64" where
  "chash t = word_of_nat (t * 2 ^ 17)"

definition pile_entry :: "nat \<Rightarrow> (u64, nat) entry" where
  "pile_entry t = \<lparr>hdib = makeHDIB (chash t) (word_of_nat (Suc t)), key = ckey t, val = Suc t\<rparr>"

definition pile :: "nat \<Rightarrow> nat \<Rightarrow> (u64, nat) entry list" where
  "pile n j = map pile_entry [0..<j] @ replicate (n - j) emptyEntry"

definition pile_shard :: "int \<Rightarrow> nat \<Rightarrow> nat \<Rightarrow> (u64, nat) mapShard" where
  "pile_shard c a j =
     \<lparr>scap = c, slength = int j, growAt = (2 ^ a * 17) div 20, shrinkAt = (2 ^ a * 3) div 20,
      smask = mask a, buckets = pile (2 ^ a) j\<rparr>"

definition pile_pairs :: "nat \<Rightarrow> (u64 \<times> nat) list" where
  "pile_pairs j = map (\<lambda>t. (ckey t, Suc t)) [0..<j]"

text \<open>The map on one CPU with the pile of \<open>j\<close> keys in shard 0.\<close>

definition pile_map :: "nat \<Rightarrow> nat \<Rightarrow> (u64, nat) Map" where
  "pile_map a j =
     \<lparr>cap = 0, shards = 16, shardIDMax = 15,
      maps = pile_shard 0 a j # replicate 15 (newShard 0), hasher = \<lambda>k. k\<rparr>"

section \<open>Bit packing\<close>

lemma maxDIB_mask: "maxDIB = mask 16"
  by (simp add: maxDIB_def hashBitSize_def dibBitSize_def)

lemma hashMask_eq: "hashMask = NOT (mask 16)"
  by (simp add: hashMask_def maxDIB_mask)

lemma dib_setDIB [simp]: "dib (setDIB e d) = d AND mask 16"
  by (auto simp add: dib_def setDIB_def maxDIB_mask hashMask_eq bit_eq_iff bit_simps)

lemma hash_setDIB [simp]: "hash (setDIB e d) = hash e"
  by (auto simp add: hash_def setDIB_def maxDIB_mask hashMask_eq dibBitSize_def bit_eq_iff
      bit_simps dest: bit_imp_le_length)

lemma key_setDIB [simp]: "key (setDIB e d) = key e"
  by (simp add: setDIB_def)

lemma val_setDIB [simp]: "val (setDIB e d) = val e"
  by (simp add: setDIB_def)

lemma dib_makeHDIB [simp]: "dib \<lparr>hdib = makeHDIB h d, key = k, val = v\<rparr> = d AND mask 16"
  by (auto simp add: dib_def makeHDIB_def maxDIB_mask dibBitSize_def bit_eq_iff bit_simps)

lemma hash_makeHDIB [simp]: "hash \<lparr>hdib = makeHDIB h d, key = k, val = v\<rparr> = take_bit 48 h"
  by (auto simp add: hash_def makeHDIB_def maxDIB_mask dibBitSize_def bit_eq_iff bit_simps)

lemma dib_emptyEntry [simp]: "dib emptyEntry = 0"
  by (simp add: dib_def emptyEntry_def)

lemma dib_val_update [simp]: "dib (e\<lparr>val := v\<rparr>) = dib e"
  by (simp add: dib_def)

lemma hash_val_update [simp]: "hash (e\<lparr>val := v\<rparr>) = hash e"
  by (simp add: hash_def)

lemma makeHash_less: "makeHash g < 2 ^ 48"
proof -
  have "unat g < 2 ^ 64"
    using unsigned_less [of g, where 'a = nat] by simp
  then have "unat g div 2 ^ 16 < 2 ^ 48"
    by simp
  moreover have "unat (makeHash g) = unat g div 2 ^ 16"
    unfolding makeHash_def dibBitSize_def unat_drop_bit_eq by (simp only: drop_bit_eq_div)
  ultimately show ?thesis
    by (simp add: word_less_nat_alt)
qed

lemma take_bit_48_id: "h < 2 ^ 48 \<Longrightarrow> take_bit 48 (h :: u64) = h"
  by (simp add: take_bit_eq_mask less_mask_eq)

section \<open>The shard router\<close>

lemma Init_shards_pos: "0 < s \<Longrightarrow> 0 < Init_shards s n"
  by (induction s n rule: Init_shards.induct) (subst Init_shards.simps, auto)

lemma initialized_Init: "initialized (Init H ncpu c)"
  using Init_shards_pos [of 1 "ncpu * 16"] by (simp add: initialized_def Init_def Let_def)

lemma Init_shards_1_16: "Init_shards 1 16 = 16"
  by (simp add: Init_shards.simps)

text \<open>
  C1, as stated, fails: on a machine with one CPU the map has 16 shards, so
  \<open>log2(shard_count)\<close> is 4, but the hash handed to the shard table is the digest
  shifted right by 16. For the digest 16 the two differ: \<open>16 >> 16 = 0\<close> and
  \<open>16 >> 4 = 1\<close>.
\<close>

theorem choose_shard_shift_counterexample:
  "snd (choose_shard (Init (\<lambda>k. k) 1 0 :: (u64, nat) Map) 16) \<noteq>
     drop_bit (shard_bits (Init (\<lambda>k. k) 1 0 :: (u64, nat) Map))
       (hasher (Init (\<lambda>k. k) 1 0 :: (u64, nat) Map) 16) \<and>
   shard_bits (Init (\<lambda>k. k) 1 0 :: (u64, nat) Map) = 4 \<and>
   snd (choose_shard (Init (\<lambda>k. k) 1 0 :: (u64, nat) Map) 16) = 0"
  by (simp add: shard_bits_def choose_shard_def Init_def Let_def Init_shards_1_16
      makeHash_def dibBitSize_def log2.simps drop_bit_eq_div)

text \<open>
  C1, amended: for every key the router returns the digest masked with the shard count
  minus one as the shard index, and the digest shifted right by 16 bits (the width of
  the displacement field) as the intra-shard hash, whatever the shard count is.
\<close>

theorem choose_shard_split:
  "choose_shard (Init H ncpu c) k =
     (H k AND word_of_int (shards (Init H ncpu c) - 1), drop_bit 16 (H k))"
  by (simp add: choose_shard_def Init_def Let_def makeHash_def dibBitSize_def)

lemma shard_index_less:
  assumes "initialized m"
  shows "uint (fst (choose_shard m k)) < shards m"
proof -
  let ?sh = "shards m"
  have pos: "0 < ?sh"
    using assms by (simp add: initialized_def)
  have "hasher m k AND word_of_int (?sh - 1) \<le> (word_of_int (?sh - 1) :: u64)"
    by (rule word_and_le1)
  then have "uint (hasher m k AND word_of_int (?sh - 1)) \<le> uint (word_of_int (?sh - 1) :: u64)"
    by (simp only: word_le_def)
  also have "\<dots> \<le> ?sh - 1"
    using pos by (simp only: uint_word_of_int) (rule zmod_le_nonneg_dividend, simp)
  finally have "uint (hasher m k AND word_of_int (?sh - 1)) < ?sh"
    by simp
  moreover have "shardIDMax m = word_of_int (?sh - 1)"
    using assms by (simp add: initialized_def)
  ultimately show ?thesis
    by (simp only: choose_shard_def Let_def fst_conv)
qed

text \<open>
  C9: on an initialized map, for every key the shard index returned by \<open>choose\<close> is
  below the shard count (and so indexes \<open>maps\<close>), the intra-shard hash is below
  \<open>2 ^ 48\<close>, and an entry built from it by \<open>makeHDIB\<close> reads back the same hash, with
  any displacement: nothing is truncated, so comparing the stored fragment with the
  hash passed to a lookup is exact.
\<close>

theorem choose_shard_bounds:
  assumes "initialized m"
  shows "uint (fst (choose_shard m k)) < shards m \<and>
         unat (fst (choose_shard m k)) < length (maps m) \<and>
         snd (choose_shard m k) < 2 ^ 48 \<and>
         hash \<lparr>hdib = makeHDIB (snd (choose_shard m k)) d, key = k, val = v\<rparr> =
           snd (choose_shard m k)"
proof -
  have a: "uint (fst (choose_shard m k)) < shards m"
    using assms by (rule shard_index_less)
  have "length (maps m) = nat (shards m)"
    using assms by (simp add: initialized_def)
  moreover have "0 \<le> uint (fst (choose_shard m k))"
    by simp
  ultimately have b: "unat (fst (choose_shard m k)) < length (maps m)"
    using a by (simp only: unat_eq_nat_uint)
  have c: "snd (choose_shard m k) < 2 ^ 48"
    using makeHash_less [of "hasher m k"] by (simp add: choose_shard_def Let_def)
  from a b c show ?thesis
    by (simp add: take_bit_48_id)
qed

theorem choose_shard_bounds_witness:
  "initialized (Init (\<lambda>k. k) 1 0 :: (u64, nat) Map) \<and>
   uint (fst (choose_shard (Init (\<lambda>k. k) 1 0 :: (u64, nat) Map) 1000000)) < 16 \<and>
   snd (choose_shard (Init (\<lambda>k. k) 1 0 :: (u64, nat) Map) 1000000) < 2 ^ 48"
  using choose_shard_bounds [where m = "Init (\<lambda>k. k) 1 0 :: (u64, nat) Map" and k = 1000000]
  by (simp add: initialized_Init) (simp add: Init_def Let_def Init_shards_1_16)

section \<open>The thresholds\<close>

lemma bits_0 [simp]: "bits 0 = 0"
  by (subst bits.simps) simp

lemma bits_Suc_0 [simp]: "bits (Suc 0) = 1"
  by (subst bits.simps) simp

lemma bits_1 [simp]: "bits 1 = 1"
  by (subst bits.simps) simp

lemma bits_Bit0 [simp]: "bits (numeral (Num.Bit0 n)) = Suc (bits (numeral n))"
  by (subst bits.simps) simp

lemma bits_Bit1 [simp]: "bits (numeral (Num.Bit1 n)) = Suc (bits (numeral n))"
  by (subst bits.simps) simp

lemma bits_double: "0 < n \<Longrightarrow> bits (2 * n) = Suc (bits n)"
  by (subst bits.simps) simp

lemma bits_pow2_mult: "0 < n \<Longrightarrow> bits (2 ^ j * n) = j + bits n"
proof (induction j)
  case 0
  then show ?case by simp
next
  case (Suc j)
  then have "bits (2 * (2 ^ j * n)) = Suc (bits (2 ^ j * n))"
    by (intro bits_double) simp
  with Suc show ?case by (simp add: mult.assoc)
qed

lemma bits_pow2: "bits (2 ^ j) = Suc j"
  using bits_pow2_mult [of 1 j] by simp

lemma loadFactor_eq: "loadFactor = (7656119366529843, - 53)"
  by (simp add: loadFactor_def float64_const_def round53_def Let_def)

lemma oneMinusLoadFactor_eq: "oneMinusLoadFactor = (5404319552844595, - 55)"
  by (simp add: oneMinusLoadFactor_def float64_const_def round53_def Let_def)

text \<open>
  The product of a power of two (at most \<open>2 ^ 52\<close>) and a 53-bit significand is exact:
  rounding drops only zero bits.
\<close>

lemma float64_mul_pow2:
  assumes "j \<le> 52" and "bits m = 53"
  shows "float64_mul (float64_of_int (2 ^ j)) (m, e) = (m, e + int j)"
proof -
  have m: "0 < m"
    using assms(2) by (cases "m = 0") simp_all
  have a: "float64_of_int (2 ^ j) = (2 ^ j, 0)"
    using assms(1) by (simp add: float64_of_int_def round53_def Let_def bits_pow2 nat_power_eq)
  have b: "bits (2 ^ j * m) - 53 = j"
    using m assms(2) by (simp add: bits_pow2_mult)
  show ?thesis
  proof (cases "j = 0")
    case True
    with a assms(2) show ?thesis
      by (simp add: float64_mul_def round53_def Let_def)
  next
    case False
    then have "(0::nat) < 2 ^ (j - 1)" by simp
    with False a b show ?thesis
      by (simp add: float64_mul_def round53_def Let_def)
  qed
qed

lemma thresholds_enum:
  "\<forall>j \<in> set [3..<49].
     (7656119366529843 :: nat) div 2 ^ (53 - j) = (2 ^ j * 17) div 20 \<and>
     (5404319552844595 :: nat) div 2 ^ (55 - j) = (2 ^ j * 3) div 20"
  by (simp add: upt_rec)

lemma thresholds_pow2:
  assumes "3 \<le> j" and "j \<le> 48"
  shows "int_of_float64 (float64_mul (float64_of_int (2 ^ j)) loadFactor) = (2 ^ j * 17) div 20"
    and "int_of_float64 (float64_mul (float64_of_int (2 ^ j)) oneMinusLoadFactor) = (2 ^ j * 3) div 20"
proof -
  from assms have j: "j \<in> set [3..<49]"
    by (simp only: set_upt) simp
  have e: "(7656119366529843 :: nat) div 2 ^ (53 - j) = (2 ^ j * 17) div 20"
    "(5404319552844595 :: nat) div 2 ^ (55 - j) = (2 ^ j * 3) div 20"
    using thresholds_enum j by blast+
  have n1: "nat (53 - int j) = 53 - j" and n2: "nat (55 - int j) = 55 - j"
    using assms by linarith+
  have "int_of_float64 (float64_mul (float64_of_int (2 ^ j)) loadFactor) =
          int (7656119366529843 div 2 ^ (53 - j))"
    using assms unfolding loadFactor_eq
    by (subst float64_mul_pow2) (simp_all add: int_of_float64_def n1)
  also have "\<dots> = (2 ^ j * 17) div 20"
    by (simp only: e) (simp add: zdiv_int)
  finally show "int_of_float64 (float64_mul (float64_of_int (2 ^ j)) loadFactor) = (2 ^ j * 17) div 20" .
  have "int_of_float64 (float64_mul (float64_of_int (2 ^ j)) oneMinusLoadFactor) =
          int (5404319552844595 div 2 ^ (55 - j))"
    using assms unfolding oneMinusLoadFactor_eq
    by (subst float64_mul_pow2) (simp_all add: int_of_float64_def n2)
  also have "\<dots> = (2 ^ j * 3) div 20"
    by (simp only: e) (simp add: zdiv_int)
  finally show "int_of_float64 (float64_mul (float64_of_int (2 ^ j)) oneMinusLoadFactor) = (2 ^ j * 3) div 20" .
qed


lemma newShard_sz_pow2:
  "sz = 2 ^ k \<Longrightarrow>
     \<exists>j. k \<le> j \<and> newShard_sz sz c = 2 ^ j \<and> c \<le> 2 ^ j \<and> (k < j \<longrightarrow> 2 ^ (j - 1) < c)"
proof (induction sz c arbitrary: k rule: newShard_sz.induct)
  case (1 sz c)
  show ?case
  proof (cases "0 < sz \<and> sz < c")
    case True
    from "1.IH" [OF True, of "Suc k"] "1.prems"
    obtain j where j: "Suc k \<le> j" "newShard_sz (sz * 2) c = 2 ^ j" "c \<le> 2 ^ j"
      "Suc k < j \<longrightarrow> 2 ^ (j - 1) < c"
      by auto
    have "2 ^ (j - 1) < c"
    proof (cases "Suc k < j")
      case True
      with j show ?thesis by simp
    next
      case False
      with j have "j = Suc k" by simp
      with True "1.prems" show ?thesis by simp
    qed
    with True j show ?thesis
      by (subst newShard_sz.simps) (auto intro!: exI [of _ j])
  next
    case False
    with "1.prems" show ?thesis
      by (subst newShard_sz.simps) (auto intro!: exI [of _ k])
  qed
qed

lemma newShard_sz_8:
  obtains j where "3 \<le> j" and "newShard_sz 8 c = 2 ^ j" and "c \<le> 2 ^ j"
    and "3 < j \<Longrightarrow> 2 ^ (j - 1) < c"
  using newShard_sz_pow2 [of 8 3 c] by auto

lemma length_buckets_newShard: "int (length (buckets (newShard c))) = newShard_sz 8 c"
proof -
  obtain j where "newShard_sz 8 c = 2 ^ j" by (rule newShard_sz_8)
  then show ?thesis by (simp add: newShard_def Let_def)
qed



lemma newShard_sz_8_0: "newShard_sz 8 0 = 8"
  by (simp add: newShard_sz.simps)


section \<open>Index arithmetic\<close>

lemma unat_and_mask: "unat ((w :: u64) AND mask j) = unat w mod 2 ^ j"
  by (simp add: take_bit_eq_mask [symmetric] unsigned_take_bit_eq take_bit_nat_def)

lemma shaped_length_pos: "shaped m \<Longrightarrow> 0 < length (buckets m)"
  by (auto simp add: shaped_def)

lemma shaped_length_le: "shaped m \<Longrightarrow> length (buckets m) \<le> 2 ^ 63"
proof -
  assume "shaped m"
  then obtain j where j: "j < 64" "length (buckets m) = 2 ^ j"
    by (auto simp add: shaped_def)
  then have "j \<le> 63" by simp
  then have "(2::nat) ^ j \<le> 2 ^ 63" by (rule power_increasing) simp
  with j show ?thesis by simp
qed

lemma shaped_buckets_update [simp]:
  "length bs = length (buckets m) \<Longrightarrow> shaped (m\<lparr>buckets := bs\<rparr>) = shaped m"
  by (simp add: shaped_def)

lemma shaped_slength_update [simp]: "shaped (m\<lparr>slength := l\<rparr>) = shaped m"
  by (simp add: shaped_def)

lemma unat_home:
  assumes "shaped m"
  shows "unat (h AND smask m) = unat h mod length (buckets m)"
  using assms by (auto simp add: shaped_def unat_and_mask)

lemma unat_home_less:
  assumes "shaped m"
  shows "unat (h AND smask m) < length (buckets m)"
  using assms shaped_length_pos [OF assms] by (simp add: unat_home)

lemma unat_next:
  assumes "shaped m" and "unat i < length (buckets m)"
  shows "unat ((i + 1) AND smask m) = Suc (unat i) mod length (buckets m)"
proof -
  have "unat i + unat (1 :: u64) < 2 ^ LENGTH(64)"
    using assms(2) shaped_length_le [OF assms(1)] by simp
  then have "unat (i + 1) = Suc (unat i)"
    by (simp add: unat_add_lem [THEN iffD1])
  then show ?thesis
    using assms(1) by (simp add: unat_home)
qed

lemma unat_next_less:
  assumes "shaped m" and "unat i < length (buckets m)"
  shows "unat ((i + 1) AND smask m) < length (buckets m)"
  using assms shaped_length_pos [OF assms(1)] by (simp add: unat_next)

section \<open>Termination of the insertion walk\<close>

declare set_loop_within.simps [simp del]

lemma set_loop_within_sound:
  "set_loop_within f m e i = Some r \<Longrightarrow> set_loop m e i = Some r"
proof (induction f arbitrary: m e i)
  case 0
  then show ?case by (simp add: set_loop_within.simps)
next
  case (Suc f)
  let ?b = "buckets m ! unat i"
  consider (stop) "length (buckets m) \<le> unat i \<or> dib ?b = 0 \<or> (hash e = hash ?b \<and> key e = key ?b)"
    | (swap) "\<not> length (buckets m) \<le> unat i" "dib ?b \<noteq> 0"
        "\<not> (hash e = hash ?b \<and> key e = key ?b)" "dib ?b < dib e"
    | (pass) "\<not> length (buckets m) \<le> unat i" "dib ?b \<noteq> 0"
        "\<not> (hash e = hash ?b \<and> key e = key ?b)" "\<not> dib ?b < dib e"
    by blast
  then show ?case
  proof cases
    case stop
    with Suc.prems show ?thesis
      by (subst set_loop.simps) (auto simp add: set_loop_within.simps split: if_splits)
  next
    case swap
    with Suc.prems have "set_loop_within f (m\<lparr>buckets := (buckets m)[unat i := e]\<rparr>)
        (setDIB ?b (dib ?b + 1)) ((i + 1) AND smask m) = Some r"
      by (simp add: set_loop_within.simps)
    then have "set_loop (m\<lparr>buckets := (buckets m)[unat i := e]\<rparr>)
        (setDIB ?b (dib ?b + 1)) ((i + 1) AND smask m) = Some r"
      by (rule Suc.IH)
    with swap show ?thesis
      by (subst set_loop.simps) auto
  next
    case pass
    with Suc.prems have "set_loop_within f m (setDIB e (dib e + 1)) ((i + 1) AND smask m) = Some r"
      by (simp add: set_loop_within.simps)
    then have "set_loop m (setDIB e (dib e + 1)) ((i + 1) AND smask m) = Some r"
      by (rule Suc.IH)
    with pass show ?thesis
      by (subst set_loop.simps) auto
  qed
qed

lemma set_loop_within_mono:
  "set_loop_within f m e i = Some r \<Longrightarrow> set_loop_within (f + g) m e i = Some r"
proof (induction f arbitrary: m e i)
  case 0
  then show ?case by (simp add: set_loop_within.simps)
next
  case (Suc f)
  let ?b = "buckets m ! unat i"
  consider (stop) "length (buckets m) \<le> unat i \<or> dib ?b = 0 \<or> (hash e = hash ?b \<and> key e = key ?b)"
    | (swap) "\<not> length (buckets m) \<le> unat i" "dib ?b \<noteq> 0"
        "\<not> (hash e = hash ?b \<and> key e = key ?b)" "dib ?b < dib e"
    | (pass) "\<not> length (buckets m) \<le> unat i" "dib ?b \<noteq> 0"
        "\<not> (hash e = hash ?b \<and> key e = key ?b)" "\<not> dib ?b < dib e"
    by blast
  then show ?case
  proof cases
    case stop
    with Suc.prems show ?thesis
      by (auto simp add: set_loop_within.simps split: if_splits)
  next
    case swap
    with Suc.prems have "set_loop_within f (m\<lparr>buckets := (buckets m)[unat i := e]\<rparr>)
        (setDIB ?b (dib ?b + 1)) ((i + 1) AND smask m) = Some r"
      by (simp add: set_loop_within.simps)
    then have "set_loop_within (f + g) (m\<lparr>buckets := (buckets m)[unat i := e]\<rparr>)
        (setDIB ?b (dib ?b + 1)) ((i + 1) AND smask m) = Some r"
      by (rule Suc.IH)
    with swap show ?thesis by (auto simp add: set_loop_within.simps)
  next
    case pass
    with Suc.prems have "set_loop_within f m (setDIB e (dib e + 1)) ((i + 1) AND smask m) = Some r"
      by (simp add: set_loop_within.simps)
    then have "set_loop_within (f + g) m (setDIB e (dib e + 1)) ((i + 1) AND smask m) = Some r"
      by (rule Suc.IH)
    with pass show ?thesis by (auto simp add: set_loop_within.simps)
  qed
qed

lemma set_loop_within_progress:
  assumes "shaped m" and "unat i < length (buckets m)"
    and "dib (buckets m ! ((unat i + d) mod length (buckets m))) = 0"
  shows "\<exists>r. set_loop_within (Suc d) m e i = Some (Inr r)"
  using assms
proof (induction d arbitrary: m e i)
  case 0
  then show ?case
    by (subst set_loop_within.simps) auto
next
  case (Suc d)
  let ?n = "length (buckets m)"
  let ?b = "buckets m ! unat i"
  let ?i' = "(i + 1) AND smask m"
  let ?z = "(unat i + Suc d) mod ?n"
  show ?case
  proof (cases "dib ?b = 0 \<or> (hash e = hash ?b \<and> key e = key ?b)")
    case True
    with Suc.prems(2) show ?thesis
      by (subst set_loop_within.simps) auto
  next
    case False
    have i': "unat ?i' = Suc (unat i) mod ?n" "unat ?i' < ?n"
      using Suc.prems(1,2) by (rule unat_next, rule unat_next_less)
    have z: "(unat ?i' + d) mod ?n = ?z"
      by (simp add: i'(1) mod_add_left_eq)
    have zi: "?z \<noteq> unat i"
    proof
      assume "?z = unat i"
      then have "dib (buckets m ! ?z) = dib ?b"
        by (rule arg_cong)
      with False Suc.prems(3) show False
        by simp
    qed
    show ?thesis
    proof (cases "dib ?b < dib e")
      case True
      let ?m' = "m\<lparr>buckets := (buckets m)[unat i := e]\<rparr>"
      have "\<exists>r. set_loop_within (Suc d) ?m'
                (setDIB ?b (dib ?b + 1)) ((i + 1) AND smask ?m') = Some (Inr r)"
      proof (rule Suc.IH)
        show "shaped ?m'" using Suc.prems(1) by simp
        show "unat ((i + 1) AND smask ?m') < length (buckets ?m')" using i'(2) by simp
        show "dib (buckets ?m' ! ((unat ((i + 1) AND smask ?m') + d) mod length (buckets ?m'))) = 0"
          using z zi Suc.prems(3) by simp
      qed
      with False True Suc.prems(2) show ?thesis
        by (subst set_loop_within.simps) auto
    next
      case nswap: False
      have "\<exists>r. set_loop_within (Suc d) m (setDIB e (dib e + 1)) ?i' = Some (Inr r)"
      proof (rule Suc.IH)
        show "shaped m" by (rule Suc.prems(1))
        show "unat ?i' < ?n" by (rule i'(2))
        show "dib (buckets m ! ((unat ?i' + d) mod ?n)) = 0"
          using z Suc.prems(3) by simp
      qed
      with False nswap Suc.prems(2) show ?thesis
        by (subst set_loop_within.simps) auto
    qed
  qed
qed

lemma exists_empty_slot:
  assumes "occupied m < length (buckets m)"
  shows "\<exists>z<length (buckets m). dib (buckets m ! z) = 0"
proof (rule ccontr)
  assume "\<not> ?thesis"
  then have "\<forall>b \<in> set (buckets m). dib b \<noteq> 0"
    by (auto simp add: in_set_conv_nth)
  then have "filter (\<lambda>b. dib b \<noteq> 0) (buckets m) = buckets m"
    by (simp add: filter_id_conv)
  with assms show False by (simp add: occupied_def)
qed

text \<open>
  On a table with a power-of-two bucket array and the matching mask whose length field
  is at least the number of occupied buckets and strictly below the bucket-array length,
  the loop of \<open>set\<close> returns after at most \<open>len(buckets)\<close> iterations, for every hash,
  key and value.
\<close>

lemma set_shard_returns:
  assumes "shaped m"
    and "int (occupied m) \<le> slength m"
    and "slength m < int (length (buckets m))"
  shows "\<exists>r. set_loop_within (length (buckets m)) m \<lparr>hdib = makeHDIB h 1, key = k, val = v\<rparr>
                (hash \<lparr>hdib = makeHDIB h 1, key = k, val = v\<rparr> AND smask m) = Some (Inr r) \<and>
              set_shard m h k v = Some (Inr r)"
proof -
  let ?n = "length (buckets m)"
  let ?e = "\<lparr>hdib = makeHDIB h 1, key = k, val = v\<rparr>"
  let ?i = "hash ?e AND smask m"
  have i: "unat ?i < ?n"
    using assms(1) by (rule unat_home_less)
  from assms(2,3) have "occupied m < ?n" by simp
  then obtain z where z: "z < ?n" "dib (buckets m ! z) = 0"
    using exists_empty_slot by blast
  define d where "d = (z + ?n - unat ?i) mod ?n"
  have "0 < ?n"
    using z(1) by (cases "buckets m") simp_all
  then have d: "d < ?n"
    unfolding d_def by (rule mod_less_divisor)
  have "(unat ?i + d) mod ?n = (unat ?i + (z + ?n - unat ?i)) mod ?n"
    by (simp add: d_def mod_add_right_eq)
  also have "\<dots> = z"
    using i z(1) by simp
  finally have "dib (buckets m ! ((unat ?i + d) mod ?n)) = 0"
    using z(2) by simp
  with assms(1) i obtain r where r: "set_loop_within (Suc d) m ?e ?i = Some (Inr r)"
    using set_loop_within_progress by blast
  from d have eq: "Suc d + (?n - Suc d) = ?n" by simp
  have w: "set_loop_within ?n m ?e ?i = Some (Inr r)"
    using set_loop_within_mono [OF r, of "?n - Suc d"] unfolding eq .
  then have "set_loop m ?e ?i = Some (Inr r)"
    by (rule set_loop_within_sound)
  then have "set_shard m h k v = Some (Inr r)"
    unfolding set_shard_def Let_def .
  with w show ?thesis by blast
qed


section \<open>Freshly built tables\<close>

lemma newShard_eq:
  assumes "c \<le> 2 ^ 48"
  obtains j where "3 \<le> j" and "j \<le> 48" and "c \<le> 2 ^ j" and "3 < j \<Longrightarrow> 2 ^ (j - 1) < c"
    and "newShard c = \<lparr>scap = c, slength = 0, growAt = (2 ^ j * 17) div 20,
           shrinkAt = (2 ^ j * 3) div 20, smask = mask j,
           buckets = replicate (2 ^ j) emptyEntry\<rparr>"
proof -
  obtain j where j: "3 \<le> j" "newShard_sz 8 c = 2 ^ j" "c \<le> 2 ^ j" "3 < j \<Longrightarrow> 2 ^ (j - 1) < c"
    by (rule newShard_sz_8 [of c]) blast
  have j48: "j \<le> 48"
  proof (rule ccontr)
    assume "\<not> j \<le> 48"
    then have "48 \<le> j - 1" and "3 < j" by simp_all
    then have "(2::int) ^ 48 \<le> 2 ^ (j - 1)" by (intro power_increasing) simp_all
    with j(4) [OF \<open>3 < j\<close>] assms show False by simp
  qed
  have "newShard c = \<lparr>scap = c, slength = 0, growAt = (2 ^ j * 17) div 20,
           shrinkAt = (2 ^ j * 3) div 20, smask = mask j,
           buckets = replicate (2 ^ j) emptyEntry\<rparr>"
    using thresholds_pow2 [OF j(1) j48] j(2)
    by (simp add: newShard_def Let_def mask_eq_decr_exp)
  with j j48 show ?thesis
    by (rule_tac that [of j]) simp_all
qed

lemma shaped_newShard: "c \<le> 2 ^ 48 \<Longrightarrow> shaped (newShard c :: ('k::zero, 'v::zero) mapShard)"
proof -
  assume "c \<le> 2 ^ 48"
  then obtain j where "j \<le> 48"
    "(newShard c :: ('k, 'v) mapShard) = \<lparr>scap = c, slength = 0, growAt = (2 ^ j * 17) div 20,
       shrinkAt = (2 ^ j * 3) div 20, smask = mask j, buckets = replicate (2 ^ j) emptyEntry\<rparr>"
    by (rule newShard_eq)
  then show ?thesis
    by (auto simp add: shaped_def intro!: exI [of _ j])
qed

lemma occupied_replicate_empty [simp]:
  "occupied (m\<lparr>buckets := replicate n emptyEntry\<rparr>) = 0"
  by (simp add: occupied_def)

lemma occupied_newShard: "occupied (newShard c) = 0"
  by (simp add: newShard_def Let_def occupied_def)

lemma slength_newShard [simp]: "slength (newShard c) = 0"
  by (simp add: newShard_def Let_def)

lemma scap_newShard [simp]: "scap (newShard c) = c"
  by (simp add: newShard_def Let_def)

lemma newShard_0:
  "(newShard 0 :: ('k::zero, 'v::zero) mapShard) =
     \<lparr>scap = 0, slength = 0, growAt = 6, shrinkAt = 1, smask = 7,
      buckets = replicate 8 emptyEntry\<rparr>"
  using thresholds_pow2 [of 3]
  by (simp add: newShard_def Let_def newShard_sz_8_0)

section \<open>A table without an empty bucket\<close>

lemma newShard_40:
  "(newShard 40 :: ('k::zero, 'v::zero) mapShard) =
     \<lparr>scap = 40, slength = 0, growAt = 54, shrinkAt = 9, smask = 63,
      buckets = replicate 64 emptyEntry\<rparr>"
  using thresholds_pow2 [of 6]
  by (simp add: newShard_def Let_def newShard_sz.simps)

lemma newShard_8:
  "(newShard 8 :: ('k::zero, 'v::zero) mapShard) =
     \<lparr>scap = 8, slength = 0, growAt = 6, shrinkAt = 1, smask = 7,
      buckets = replicate 8 emptyEntry\<rparr>"
  using thresholds_pow2 [of 3]
  by (simp add: newShard_def Let_def newShard_sz.simps)

lemma nine_entries_eq:
  "nine_entries = [(1, 0x10000, 1), (2, 0x20000, 2), (3, 0x30000, 3), (4, 0x40000, 4),
     (5, 0x50000, 5), (6, 0x60000, 6), (7, 0x70000, 7), (8, 0x80000, 8), (9, 0x90000, 9)]"
  by (simp add: nine_entries_def nine_keys_def makeHash_def dibBitSize_def drop_bit_eq_div)

lemma nine_sets: "SetWithHash_all (newShard 40) nine_entries = Some (Inr nine_table)"
  by (simp add: nine_entries_eq newShard_40 nine_table_def SetWithHash_def set_shard_def bindR_def
      set_loop.simps)

lemma replicate_10_54: "replicate 64 x = replicate 10 x @ replicate 54 x"
  by (simp add: replicate_add [symmetric])

lemma replicate_10: "replicate 10 x = [x, x, x, x, x, x, x, x, x, x]"
  by (simp add: numeral_eq_Suc)

lemma resize_fill_append:
  "resize_fill (xs @ ys) m = bindR (resize_fill xs m) (resize_fill ys)"
proof (induction xs arbitrary: m)
  case Nil
  show ?case by (simp add: bindR_def)
next
  case (Cons x xs)
  show ?case
    by (cases "set_shard m (hash x) (key x) (val x)")
      (auto simp add: bindR_def Cons.IH split: sum.splits)
qed

lemma resize_fill_replicate_empty [simp]: "resize_fill (replicate n emptyEntry) m = Some (Inr m)"
  by (induction n) simp_all

lemma mask_16: "mask 16 = (0xFFFF :: u64)"
  by (simp add: mask_eq_exp_minus_1)

lemma get_loop_no_return:
  fixes m :: "('k::zero, 'v::zero) mapShard"
  assumes "shaped m"
    and "\<forall>b \<in> set (buckets m). dib b \<noteq> 0 \<and> \<not> (hash b = h \<and> key b = k)"
    and "unat i < length (buckets m)"
  shows "get_loop m h k i = None"
proof (cases "get_loop m h k i")
  case None
  then show ?thesis .
next
  case (Some y)
  let ?P = "\<lambda>(m :: ('k, 'v) mapShard) h k i (y :: error + 'v \<times> bool).
    \<not> (shaped m \<and> (\<forall>b \<in> set (buckets m). dib b \<noteq> 0 \<and> \<not> (hash b = h \<and> key b = k)) \<and>
       unat i < length (buckets m))"
  have "?P m h k i y"
  proof (rule get_loop.raw_induct [where P = ?P, OF _ Some])
    fix f m h k i y
    assume IH: "\<And>m h k i y. f m h k i = Some y \<Longrightarrow> ?P m h k i y"
      and body: "(if length (buckets m) \<le> unat i then Some (Inl IndexOutOfRange)
         else if dib (buckets m ! unat i) = 0 then Some (Inr (0, False))
         else if hash (buckets m ! unat i) = h \<and> key (buckets m ! unat i) = k
           then Some (Inr (val (buckets m ! unat i), True))
           else f m h k ((i + 1) AND smask m)) = Some y"
    show "?P m h k i y"
    proof
      assume a: "shaped m \<and> (\<forall>b \<in> set (buckets m). dib b \<noteq> 0 \<and> \<not> (hash b = h \<and> key b = k)) \<and>
         unat i < length (buckets m)"
      then have "buckets m ! unat i \<in> set (buckets m)"
        by simp
      with a have b: "dib (buckets m ! unat i) \<noteq> 0"
        "\<not> (hash (buckets m ! unat i) = h \<and> key (buckets m ! unat i) = k)"
        by blast+
      with body a have "f m h k ((i + 1) AND smask m) = Some y"
        by (auto split: if_splits)
      then have "?P m h k ((i + 1) AND smask m) y"
        by (rule IH)
      moreover have "unat ((i + 1) AND smask m) < length (buckets m)"
        using a by (simp add: unat_next_less)
      ultimately show False
        using a by blast
    qed
  qed
  with assms show ?thesis by blast
qed


lemma delete_loop_no_return:
  fixes m :: "('k::zero, 'v::zero) mapShard"
  assumes "shaped m"
    and "\<forall>b \<in> set (buckets m). dib b \<noteq> 0 \<and> \<not> (hash b = h \<and> key b = k)"
    and "unat i < length (buckets m)"
  shows "delete_loop m h k i = None"
proof (cases "delete_loop m h k i")
  case None
  then show ?thesis .
next
  case (Some y)
  let ?P = "\<lambda>(m :: ('k, 'v) mapShard) h k i (y :: error + ('v \<times> bool) \<times> ('k, 'v) mapShard).
    \<not> (shaped m \<and> (\<forall>b \<in> set (buckets m). dib b \<noteq> 0 \<and> \<not> (hash b = h \<and> key b = k)) \<and>
       unat i < length (buckets m))"
  have "?P m h k i y"
  proof (rule delete_loop.raw_induct [where P = ?P, OF _ Some])
    fix f m h k i y
    assume IH: "\<And>m h k i y. f m h k i = Some y \<Longrightarrow> ?P m h k i y"
      and body: "(if length (buckets m) \<le> unat i then Some (Inl IndexOutOfRange)
         else if dib (buckets m ! unat i) = 0 then Some (Inr ((0, False), m))
         else if hash (buckets m ! unat i) = h \<and> key (buckets m ! unat i) = k
           then (case remove m i of None \<Rightarrow> None | Some (Inl err) \<Rightarrow> Some (Inl err)
                 | Some (Inr m') \<Rightarrow> Some (Inr ((val (buckets m ! unat i), True), m')))
           else f m h k ((i + 1) AND smask m)) = Some y"
    show "?P m h k i y"
    proof
      assume a: "shaped m \<and> (\<forall>b \<in> set (buckets m). dib b \<noteq> 0 \<and> \<not> (hash b = h \<and> key b = k)) \<and>
         unat i < length (buckets m)"
      then have "buckets m ! unat i \<in> set (buckets m)"
        by simp
      with a have b: "dib (buckets m ! unat i) \<noteq> 0"
        "\<not> (hash (buckets m ! unat i) = h \<and> key (buckets m ! unat i) = k)"
        by blast+
      with body a have "f m h k ((i + 1) AND smask m) = Some y"
        by (auto split: if_splits)
      then have "?P m h k ((i + 1) AND smask m) y"
        by (rule IH)
      moreover have "unat ((i + 1) AND smask m) < length (buckets m)"
        using a by (simp add: unat_next_less)
      ultimately show False
        using a by blast
    qed
  qed
  with assms show ?thesis by blast
qed

text \<open>
  In a table with no empty bucket, looking up or deleting a key that is not stored
  never returns: the probe loop only stops at an empty bucket or at a match.
\<close>

lemma GetWithHash_no_return:
  assumes "shaped m"
    and "\<forall>b \<in> set (buckets m). dib b \<noteq> 0 \<and> \<not> (hash b = h \<and> key b = k)"
  shows "GetWithHash m h k = None"
  using assms shaped_length_pos [OF assms(1)]
  by (simp add: GetWithHash_def get_loop_no_return unat_home_less)

lemma DeleteWithHash_no_return:
  assumes "shaped m"
    and "\<forall>b \<in> set (buckets m). dib b \<noteq> 0 \<and> \<not> (hash b = h \<and> key b = k)"
  shows "DeleteWithHash m h k = None"
  using assms shaped_length_pos [OF assms(1)]
  by (simp add: DeleteWithHash_def delete_loop_no_return unat_home_less)


lemma replicate_8_updates:
  "(replicate 8 x)[Suc 0 := a, 2 := b, 3 := c, 4 := d, 5 := e, 6 := f, 7 := g, 0 := h] =
     [h, a, b, c, d, e, f, g]"
  by (simp add: numeral_eq_Suc)

lemma delete_ninth: "DeleteWithHash nine_table 9 0x90000 = Some (Inr ((9, True), full_table))"
  unfolding nine_table_def full_table_def replicate_10_54 replicate_10
  by (simp add: DeleteWithHash_def delete_loop.simps remove_def remove_loop.simps bindR_def
      Let_def resize_def newShard_8 set_shard_def set_loop.simps mask_16 resize_fill_append
      replicate_8_updates)

lemma shaped_full_table: "shaped full_table"
  by (auto simp add: shaped_def full_table_def mask_eq_exp_minus_1 intro!: exI [of _ 3])

lemma full_table_full:
  "\<forall>b \<in> set (buckets full_table). dib b \<noteq> 0 \<and> \<not> (hash b = 10 \<and> key b = 0xA0000)"
  by (simp add: full_table_def mask_16)

text \<open>
  C10 fails on the code. From \<open>newShard(40)\<close> (64 buckets, above the hint, so the table
  may shrink), nine \<open>SetWithHash\<close> calls and one \<open>DeleteWithHash\<close> leave 8 entries;
  \<open>remove\<close> then calls \<open>resize(8)\<close>, which builds a table of exactly 8 buckets. In the
  state reached the length field equals the bucket-array length, no bucket is empty,
  and \<open>GetWithHash\<close> of a key that is not stored never returns.
\<close>

theorem shrink_fills_table:
  "SetWithHash_all (newShard 40) nine_entries = Some (Inr nine_table) \<and>
   DeleteWithHash nine_table 9 0x90000 = Some (Inr ((9, True), full_table)) \<and>
   slength full_table = int (length (buckets full_table)) \<and>
   occupied full_table = length (buckets full_table) \<and>
   GetWithHash full_table 10 0xA0000 = None"
proof -
  have "GetWithHash full_table 10 0xA0000 = None"
    using shaped_full_table full_table_full by (rule GetWithHash_no_return)
  moreover have "slength full_table = int (length (buckets full_table))"
    "occupied full_table = length (buckets full_table)"
    by (simp_all add: full_table_def occupied_def mask_16)
  ultimately show ?thesis
    using nine_sets delete_ninth by simp
qed


section \<open>The same run on the map\<close>

lemma Set_on_shard:
  "Set m k v =
     on_shard m (hasher m k AND shardIDMax m) (\<lambda>s. SetWithHash s (makeHash (hasher m k)) k v)"
  by (simp add: Set_def choose_shard_def Let_def)

lemma Delete_on_shard:
  "Delete m k =
     on_shard m (hasher m k AND shardIDMax m) (\<lambda>s. DeleteWithHash s (makeHash (hasher m k)) k)"
  by (simp add: Delete_def choose_shard_def Let_def)

lemma on_shard_no_return:
  "unat i < length (maps m) \<Longrightarrow> f (maps m ! unat i) = None \<Longrightarrow> on_shard m i f = None"
  by (simp add: on_shard_def bindR_def)

lemma on_shard_returns:
  "unat i < length (maps m) \<Longrightarrow> f (maps m ! unat i) = Some (Inr (r, s)) \<Longrightarrow>
     on_shard m i f = Some (Inr (r, m\<lparr>maps := (maps m)[unat i := s]\<rparr>))"
  by (simp add: on_shard_def bindR_def)

lemma Set_all_one_shard:
  assumes "unat i < length (maps m)"
    and "\<forall>(k, v) \<in> set kvs. hasher m k AND shardIDMax m = i"
  shows "Set_all m kvs =
     bindR (SetWithHash_all (maps m ! unat i) (map (\<lambda>(k, v). (makeHash (hasher m k), k, v)) kvs))
       (\<lambda>s. Some (Inr (m\<lparr>maps := (maps m)[unat i := s]\<rparr>)))"
  using assms
proof (induction kvs arbitrary: m)
  case Nil
  then show ?case by (simp add: bindR_def)
next
  case (Cons kv kvs)
  obtain k v where kv: "kv = (k, v)" by (cases kv)
  from Cons.prems kv have i: "hasher m k AND shardIDMax m = i" by simp
  show ?case
  proof (cases "SetWithHash (maps m ! unat i) (makeHash (hasher m k)) k v")
    case None
    with Cons.prems(1) kv i show ?thesis
      by (simp add: Set_on_shard on_shard_def bindR_def)
  next
    case (Some a)
    show ?thesis
    proof (cases a)
      case (Inl err)
      with Some Cons.prems(1) kv i show ?thesis
        by (simp add: Set_on_shard on_shard_def bindR_def)
    next
      case (Inr rs)
      let ?m' = "m\<lparr>maps := (maps m)[unat i := snd rs]\<rparr>"
      have "Set_all ?m' kvs =
        bindR (SetWithHash_all (maps ?m' ! unat i)
                 (map (\<lambda>(k, v). (makeHash (hasher ?m' k), k, v)) kvs))
          (\<lambda>s. Some (Inr (?m'\<lparr>maps := (maps ?m')[unat i := s]\<rparr>)))"
        using Cons.prems by (intro Cons.IH) auto
      with Some Inr Cons.prems(1) kv i show ?thesis
        by (simp add: Set_on_shard on_shard_def bindR_def)
    qed
  qed
qed

lemma small_map_eq:
  "small_map = \<lparr>cap = 640, shards = 16, shardIDMax = 15,
     maps = replicate 16 (newShard 40), hasher = \<lambda>k. k\<rparr>"
  by (simp add: small_map_def Init_def Let_def Init_shards_1_16 go_div_def)

lemma nine_map:
  "Set_all small_map nine_keys = Some (Inr (small_map\<lparr>maps := (maps small_map)[0 := nine_table]\<rparr>))"
proof -
  have "Set_all small_map nine_keys =
     bindR (SetWithHash_all (maps small_map ! unat (0 :: u64))
              (map (\<lambda>(k, v). (makeHash (hasher small_map k), k, v)) nine_keys))
       (\<lambda>s. Some (Inr (small_map\<lparr>maps := (maps small_map)[unat (0 :: u64) := s]\<rparr>)))"
    by (rule Set_all_one_shard) (simp_all add: small_map_eq nine_keys_def)
  moreover have "map (\<lambda>(k, v). (makeHash (hasher small_map k), k, v)) nine_keys = nine_entries"
    by (simp add: small_map_eq nine_entries_def)
  moreover have "maps small_map ! unat (0 :: u64) = newShard 40"
    by (simp add: small_map_eq)
  ultimately show ?thesis
    by (simp add: nine_sets bindR_def)
qed

lemma full_map_reached:
  "Delete (small_map\<lparr>maps := (maps small_map)[0 := nine_table]\<rparr>) 0x90000 =
     Some (Inr ((9, True), full_map))"
proof -
  let ?m = "small_map\<lparr>maps := (maps small_map)[0 := nine_table]\<rparr>"
  have "on_shard ?m 0 (\<lambda>s. DeleteWithHash s 9 0x90000) =
          Some (Inr ((9, True), ?m\<lparr>maps := (maps ?m)[unat (0 :: u64) := full_table]\<rparr>))"
    by (rule on_shard_returns) (simp_all add: small_map_eq delete_ninth)
  then show ?thesis
    by (simp add: Delete_on_shard full_map_def small_map_eq makeHash_def dibBitSize_def
        drop_bit_eq_div)
qed

lemma full_map_shard:
  "maps full_map \<noteq> []" "maps full_map ! 0 = full_table"
  "hasher full_map = (\<lambda>k. k)" "shardIDMax full_map = 15"
  by (simp_all add: full_map_def small_map_eq)

text \<open>
  C6 fails on the code. On \<open>New(640)\<close> with 16 shards, nine \<open>Set\<close> calls on keys of
  shard 0 and \<open>Delete\<close> of one of them leave shard 0 with 8 entries in 8 buckets (the
  shrink of \<open>remove\<close>). \<open>Delete\<close> of a key that is absent and routed to that shard then
  never returns, where the claim has it return the default value and false.
\<close>

theorem Delete_absent_no_return:
  "Set_all small_map nine_keys =
     Some (Inr (small_map\<lparr>maps := (maps small_map)[0 := nine_table]\<rparr>)) \<and>
   Delete (small_map\<lparr>maps := (maps small_map)[0 := nine_table]\<rparr>) 0x90000 =
     Some (Inr ((9, True), full_map)) \<and>
   Delete full_map 0xA0000 = None"
proof -
  have "DeleteWithHash full_table 10 0xA0000 = None"
    using shaped_full_table full_table_full by (rule DeleteWithHash_no_return)
  then have "on_shard full_map 0 (\<lambda>s. DeleteWithHash s 10 0xA0000) = None"
    by (intro on_shard_no_return) (simp_all add: full_map_shard)
  then have "Delete full_map 0xA0000 = None"
    by (simp add: Delete_on_shard full_map_shard makeHash_def dibBitSize_def drop_bit_eq_div)
  with nine_map full_map_reached show ?thesis
    by simp
qed

text \<open>
  C4 fails on the code, on the same state: \<open>DeleteAccept\<close> of an absent key of shard 0,
  with an \<open>accept\<close> function that returns false, never returns, where the claim has it
  return the default value and false.
\<close>

theorem DeleteAccept_absent_no_return:
  "Set_all small_map nine_keys =
     Some (Inr (small_map\<lparr>maps := (maps small_map)[0 := nine_table]\<rparr>)) \<and>
   Delete (small_map\<lparr>maps := (maps small_map)[0 := nine_table]\<rparr>) 0x90000 =
     Some (Inr ((9, True), full_map)) \<and>
   DeleteAccept full_map 0xA0000 (Some (\<lambda>prev deleted. False)) = None"
proof -
  have "DeleteWithHash full_table 10 0xA0000 = None"
    using shaped_full_table full_table_full by (rule DeleteWithHash_no_return)
  then have "DeleteAccept full_map 0xA0000 (Some (\<lambda>prev deleted. False)) = None"
    by (simp add: DeleteAccept_def choose_shard_def Let_def on_shard_def bindR_def
        full_map_shard makeHash_def dibBitSize_def drop_bit_eq_div)
  with nine_map full_map_reached show ?thesis
    by simp
qed

text \<open>
  C2 fails on the code. \<open>newShard(40)\<close> has 64 buckets, more than the hint; after one
  \<open>SetWithHash\<close> and the \<open>DeleteWithHash\<close> of the same key the length is 0, below
  \<open>shrinkAt = 9\<close>, and \<open>remove\<close> calls \<open>resize(0)\<close>: the table is rebuilt with 8 buckets,
  below the capacity hint 40, which the table still records.
\<close>

theorem shrink_below_hint:
  "\<exists>s1 s2. SetWithHash (newShard 40 :: (u64, nat) mapShard) 1 0x10000 1 = Some (Inr ((0, False), s1)) \<and>
     int (length (buckets s1)) = 64 \<and>
     DeleteWithHash s1 1 0x10000 = Some (Inr ((1, True), s2)) \<and>
     scap s2 = 40 \<and> int (length (buckets s2)) = 8"
  by (simp add: newShard_40 newShard_0 SetWithHash_def set_shard_def bindR_def set_loop.simps
      DeleteWithHash_def delete_loop.simps remove_def remove_loop.simps Let_def resize_def
      mask_16 replicate_10_54 replicate_10 resize_fill_append)

section \<open>Displacements as numbers\<close>

lemma dibn_less: "dibn b < 65536"
proof -
  have "dib b \<le> mask 16"
    unfolding dib_def maxDIB_mask by (rule word_and_le1)
  then have "unat (dib b) \<le> unat (mask 16 :: u64)"
    by (simp only: word_le_nat_alt)
  then show ?thesis
    by (simp add: dibn_def mask_16)
qed

lemma dib_eq_0_iff: "dib b = 0 \<longleftrightarrow> dibn b = 0"
  by (simp add: dibn_def unat_eq_0)

lemma dib_less_iff: "dib a < dib b \<longleftrightarrow> dibn a < dibn b"
  by (simp add: dibn_def word_less_nat_alt)

lemma dib_le_1_iff: "dib b \<le> 1 \<longleftrightarrow> dibn b \<le> 1"
  by (simp add: dibn_def word_le_nat_alt)

lemma dib_pos_iff: "0 < dib b \<longleftrightarrow> dibn b \<noteq> 0"
  by (simp add: dibn_def word_less_nat_alt unat_gt_0 unat_eq_0)

lemma dibn_setDIB: "dibn (setDIB e d) = unat d mod 65536"
  by (simp add: dibn_def unat_and_mask)

lemma dibn_setDIB_0 [simp]: "dibn (setDIB e 0) = 0"
  by (simp add: dibn_setDIB)

lemma dibn_setDIB_succ: "dibn e < 65535 \<Longrightarrow> dibn (setDIB e (dib e + 1)) = Suc (dibn e)"
proof -
  assume a: "dibn e < 65535"
  have "unat (dib e) + unat (1 :: u64) < 2 ^ LENGTH(64)"
    using a by (simp add: dibn_def)
  then have "unat (dib e + 1) = Suc (dibn e)"
    by (simp add: unat_add_lem [THEN iffD1] dibn_def)
  with a show ?thesis
    by (simp add: dibn_setDIB)
qed

lemma dibn_setDIB_pred: "dibn e \<noteq> 0 \<Longrightarrow> dibn (setDIB e (dib e - 1)) = dibn e - 1"
proof -
  assume a: "dibn e \<noteq> 0"
  then have "dib e \<noteq> 0"
    by (simp add: dib_eq_0_iff)
  then have "unat (dib e - 1) = dibn e - 1"
    by (simp add: unat_minus_one dibn_def)
  moreover have "dibn e - 1 < 65536"
    using dibn_less [of e] by simp
  ultimately show ?thesis
    by (simp add: dibn_setDIB)
qed

lemma dibn_makeHDIB_1 [simp]: "dibn \<lparr>hdib = makeHDIB h 1, key = k, val = v\<rparr> = 1"
  by (simp add: dibn_def mask_16)

lemma dibn_emptyEntry [simp]: "dibn emptyEntry = 0"
  by (simp add: dibn_def)

lemma dibn_val_update [simp]: "dibn (e\<lparr>val := v\<rparr>) = dibn e"
  by (simp add: dibn_def)

lemma home_setDIB [simp]: "home n (setDIB e d) = home n e"
  by (simp add: home_def)

lemma home_val_update [simp]: "home n (e\<lparr>val := v\<rparr>) = home n e"
  by (simp add: home_def)

lemma key_val_update [simp]: "key (e\<lparr>val := v\<rparr>) = key e"
  by simp

section \<open>Walking round the bucket array\<close>

lemma mod_lt: "(p :: nat) < n \<Longrightarrow> x mod n < n"
  by (cases "n = 0") simp_all

lemma mod_add_inj_le:
  assumes "(a + s) mod n = (a + t) mod n" and "s \<le> t" and "t < (n :: nat)"
  shows "s = t"
proof (rule ccontr)
  assume "s \<noteq> t"
  with assms(2) have st: "0 < t - s" by simp
  from assms(2) have "a + s \<le> a + t" by simp
  then have "n dvd (a + t) - (a + s)"
    using assms(1) [symmetric] by (simp only: mod_eq_dvd_iff_nat)
  then have "n dvd t - s" by simp
  with st have "n \<le> t - s" by (simp add: dvd_imp_le)
  with assms(3) show False by simp
qed

lemma mod_add_inj:
  assumes "(a + s) mod n = (a + t) mod n" and "s < n" and "t < (n :: nat)"
  shows "s = t"
proof (cases "s \<le> t")
  case True
  with assms show ?thesis by (intro mod_add_inj_le [of a s n t])
next
  case False
  then have "t \<le> s" by simp
  with assms have "t = s" by (intro mod_add_inj_le [of a t n s]) simp_all
  then show ?thesis by simp
qed

lemma Suc_mod_add: "Suc ((a + t) mod n) mod n = (a + Suc t) mod n"
  by (simp add: mod_Suc_eq)

text \<open>Along the array the displacement grows by at most one per step.\<close>

lemma ordered_steps:
  assumes "ordered bs" and "q < length bs"
  shows "dibn (bs ! ((q + s) mod length bs)) \<le> dibn (bs ! q) + s"
proof (induction s)
  case 0
  with assms(2) show ?case by simp
next
  case (Suc s)
  let ?n = "length bs"
  have "(q + s) mod ?n < ?n"
    using assms(2) by (rule mod_lt)
  with assms(1) have "dibn (bs ! (Suc ((q + s) mod ?n) mod ?n)) \<le> dibn (bs ! ((q + s) mod ?n)) + 1"
    by (simp add: ordered_def)
  with Suc show ?case
    by (simp add: Suc_mod_add)
qed

text \<open>
  The buckets from the home of a stored entry up to the entry are all occupied, with
  displacements at least as large as an entry with the same home would have there.
\<close>

lemma placed_position:
  assumes "placed bs" and "p < length bs" and "dib (bs ! p) \<noteq> 0"
  shows "(home (length bs) (bs ! p) + (dibn (bs ! p) - 1)) mod length bs = p"
    and "dibn (bs ! p) \<le> length bs" and "0 < dibn (bs ! p)"
proof -
  let ?n = "length bs" and ?H = "home (length bs) (bs ! p)"
  have d: "dibn (bs ! p) = (p + ?n - ?H) mod ?n + 1"
    using assms by (simp add: placed_def)
  have H: "?H < ?n"
    unfolding home_def using assms(2) by (rule mod_lt)
  have "(p + ?n - ?H) mod ?n < ?n"
    using assms(2) by (rule mod_lt)
  then show "dibn (bs ! p) \<le> ?n"
    using d by simp
  show "0 < dibn (bs ! p)"
    using d by simp
  have "(?H + (dibn (bs ! p) - 1)) mod ?n = (?H + (p + ?n - ?H) mod ?n) mod ?n"
    using d by simp
  also have "\<dots> = (?H + (p + ?n - ?H)) mod ?n"
    by (simp add: mod_add_right_eq)
  also have "\<dots> = p"
    using H assms(2) by simp
  finally show "(?H + (dibn (bs ! p) - 1)) mod ?n = p" .
qed

lemma path_occupied:
  assumes "placed bs" and "ordered bs" and "p < length bs" and "dib (bs ! p) \<noteq> 0"
    and "t < dibn (bs ! p)"
  shows "Suc t \<le> dibn (bs ! ((home (length bs) (bs ! p) + t) mod length bs))"
proof -
  let ?n = "length bs" and ?H = "home (length bs) (bs ! p)" and ?d = "dibn (bs ! p)"
  let ?q = "(?H + t) mod ?n"
  have q: "?q < ?n"
    using assms(3) by (rule mod_lt)
  have "(?q + (?d - 1 - t)) mod ?n = (?H + t + (?d - 1 - t)) mod ?n"
    by (simp add: mod_add_left_eq)
  also have "\<dots> = (?H + (?d - 1)) mod ?n"
    using assms(5) by simp
  also have "\<dots> = p"
    using assms(1,3,4) by (rule placed_position)
  finally have "dibn (bs ! p) \<le> dibn (bs ! ?q) + (?d - 1 - t)"
    using ordered_steps [OF assms(2) q, of "?d - 1 - t"] by simp
  with assms(5) show ?thesis by simp
qed


section \<open>Content of a table\<close>

lemma content_None_iff: "content m (h, k) = None \<longleftrightarrow> (\<forall>p. \<not> holds (buckets m) p h k)"
  by (auto simp add: content_def holds_def find_None_iff in_set_conv_nth)

lemma content_holds:
  assumes "unique (buckets m)" and "holds (buckets m) p h k"
  shows "content m (h, k) = Some (val (buckets m ! p))"
proof -
  let ?P = "\<lambda>b. dib b \<noteq> 0 \<and> hash b = h \<and> key b = k"
  from assms(2) have "\<not> (\<forall>p. \<not> holds (buckets m) p h k)" by blast
  then obtain b where b: "find ?P (buckets m) = Some b"
    by (auto simp add: content_None_iff [symmetric] content_def)
  then obtain i where i: "i < length (buckets m)" "?P (buckets m ! i)" "b = buckets m ! i"
    by (auto simp add: find_Some_iff)
  with assms have "i = p"
    by (auto simp add: unique_def holds_def)
  with b i show ?thesis
    by (simp add: content_def)
qed

lemma content_Some_holds:
  assumes "content m (h, k) = Some v"
  obtains p where "holds (buckets m) p h k" and "val (buckets m ! p) = v"
proof -
  from assms obtain b where "find (\<lambda>b. dib b \<noteq> 0 \<and> hash b = h \<and> key b = k) (buckets m) = Some b"
    and "val b = v"
    by (auto simp add: content_def)
  then obtain i where "i < length (buckets m)" "dib (buckets m ! i) \<noteq> 0"
    "hash (buckets m ! i) = h" "key (buckets m ! i) = k" "b = buckets m ! i"
    by (auto simp add: find_Some_iff)
  with \<open>val b = v\<close> show ?thesis
    by (intro that [of i]) (simp_all add: holds_def)
qed

section \<open>Lookup\<close>

lemma get_loop_found:
  fixes m :: "('k::zero, 'v::zero) mapShard"
  assumes "shaped m" and "placed (buckets m)" and "ordered (buckets m)" and "unique (buckets m)"
    and "holds (buckets m) p h k"
    and "t < dibn (buckets m ! p)"
    and "unat i = (home (length (buckets m)) (buckets m ! p) + t) mod length (buckets m)"
  shows "get_loop m h k i = Some (Inr (val (buckets m ! p), True))"
  using assms(6,7)
proof (induction "dibn (buckets m ! p) - t" arbitrary: t i)
  case 0
  then show ?case by simp
next
  case (Suc x)
  let ?bs = "buckets m" and ?n = "length (buckets m)"
  let ?H = "home ?n (?bs ! p)" and ?d = "dibn (?bs ! p)"
  have p: "p < ?n" "dib (?bs ! p) \<noteq> 0" "hash (?bs ! p) = h" "key (?bs ! p) = k"
    using assms(5) by (simp_all add: holds_def)
  have i: "unat i < ?n"
    unfolding Suc.prems(2) using p(1) by (rule mod_lt)
  have occ: "Suc t \<le> dibn (?bs ! unat i)"
    unfolding Suc.prems(2) using assms(2,3) p(1,2) Suc.prems(1) by (rule path_occupied)
  then have nz: "dib (?bs ! unat i) \<noteq> 0"
    by (simp add: dib_eq_0_iff)
  show ?case
  proof (cases "unat i = p")
    case True
    with i p show ?thesis
      by (subst get_loop.simps) simp
  next
    case False
    have nm: "\<not> (hash (?bs ! unat i) = h \<and> key (?bs ! unat i) = k)"
    proof
      assume "hash (?bs ! unat i) = h \<and> key (?bs ! unat i) = k"
      with assms(4) i nz p have "unat i = p"
        by (simp add: unique_def)
      with False show False by simp
    qed
    have t: "Suc t < ?d"
    proof (rule ccontr)
      assume "\<not> Suc t < ?d"
      with Suc.prems(1) have "t = ?d - 1" by simp
      then have "unat i = (?H + (?d - 1)) mod ?n"
        using Suc.prems(2) by simp
      also have "\<dots> = p"
        using assms(2) p(1,2) by (rule placed_position)
      finally show False using False by simp
    qed
    have "unat ((i + 1) AND smask m) = Suc (unat i) mod ?n"
      using assms(1) i by (rule unat_next)
    also have "\<dots> = (?H + Suc t) mod ?n"
      unfolding Suc.prems(2) by (rule Suc_mod_add)
    finally have eq: "unat ((i + 1) AND smask m) = (?H + Suc t) mod ?n" .
    from Suc.hyps(2) have "x = ?d - Suc t" by simp
    then have "get_loop m h k ((i + 1) AND smask m) = Some (Inr (val (?bs ! p), True))"
      using t eq by (rule Suc.hyps(1))
    with i nz nm show ?thesis
      by (subst get_loop.simps) auto
  qed
qed

lemma get_loop_absent:
  fixes m :: "('k::zero, 'v::zero) mapShard"
  assumes "shaped m" and "\<forall>p. \<not> holds (buckets m) p h k"
    and "unat i < length (buckets m)"
    and "dib (buckets m ! ((unat i + e) mod length (buckets m))) = 0"
  shows "get_loop m h k i = Some (Inr (0, False))"
  using assms(3,4)
proof (induction e arbitrary: i)
  case 0
  then show ?case
    by (subst get_loop.simps) simp
next
  case (Suc e)
  let ?bs = "buckets m" and ?n = "length (buckets m)"
  show ?case
  proof (cases "dib (?bs ! unat i) = 0")
    case True
    with Suc.prems(1) show ?thesis
      by (subst get_loop.simps) simp
  next
    case False
    with assms(2) Suc.prems(1) have nm: "\<not> (hash (?bs ! unat i) = h \<and> key (?bs ! unat i) = k)"
      by (auto simp add: holds_def)
    have i': "unat ((i + 1) AND smask m) = Suc (unat i) mod ?n" "unat ((i + 1) AND smask m) < ?n"
      using assms(1) Suc.prems(1) by (rule unat_next, rule unat_next_less)
    have "(unat ((i + 1) AND smask m) + e) mod ?n = (unat i + Suc e) mod ?n"
      by (simp add: i'(1) mod_add_left_eq)
    with Suc.prems(2) have "get_loop m h k ((i + 1) AND smask m) = Some (Inr (0, False))"
      by (intro Suc.IH i'(2)) simp
    with False nm Suc.prems(1) show ?thesis
      by (subst get_loop.simps) auto
  qed
qed

text \<open>
  Lookup on a table that satisfies the invariant returns what the content says; for a key
  that is not stored it needs an empty bucket to stop at.
\<close>

lemma GetWithHash_content:
  fixes m :: "('k::zero, 'v::zero) mapShard"
  assumes "robin_hood m"
    and "content m (h, k) \<noteq> None \<or> occupied m < length (buckets m)"
  shows "GetWithHash m h k =
           Some (Inr (case content m (h, k) of None \<Rightarrow> (0, False) | Some v \<Rightarrow> (v, True)))"
proof -
  let ?bs = "buckets m" and ?n = "length (buckets m)"
  have rh: "shaped m" "placed ?bs" "ordered ?bs" "unique ?bs"
    using assms(1) by (simp_all add: robin_hood_def)
  have "8 \<le> ?n"
    using assms(1) by (simp add: robin_hood_def)
  then have n0: "?n \<noteq> 0"
    by linarith
  have i: "unat (h AND smask m) = unat h mod ?n"
    using rh(1) by (rule unat_home)
  show ?thesis
  proof (cases "content m (h, k)")
    case None
    then have ab: "\<forall>p. \<not> holds ?bs p h k"
      by (simp add: content_None_iff)
    from None assms(2) obtain z where z: "z < ?n" "dib (?bs ! z) = 0"
      using exists_empty_slot by blast
    have il: "unat (h AND smask m) < ?n"
      using rh(1) by (rule unat_home_less)
    have "(unat (h AND smask m) + (z + ?n - unat (h AND smask m)) mod ?n) mod ?n =
           (unat (h AND smask m) + (z + ?n - unat (h AND smask m))) mod ?n"
      by (simp add: mod_add_right_eq)
    also have "\<dots> = z"
      using il z(1) by simp
    finally have "dib (?bs ! ((unat (h AND smask m) +
        (z + ?n - unat (h AND smask m)) mod ?n) mod ?n)) = 0"
      using z(2) by simp
    then have "get_loop m h k (h AND smask m) = Some (Inr (0, False))"
      by (rule get_loop_absent [OF rh(1) ab il])
    with None n0 show ?thesis
      by (simp add: GetWithHash_def)
  next
    case (Some v)
    then obtain p where p: "holds ?bs p h k" "val (?bs ! p) = v"
      by (rule content_Some_holds)
    then have pp: "p < ?n" "dib (?bs ! p) \<noteq> 0" "hash (?bs ! p) = h"
      by (simp_all add: holds_def)
    have "0 < dibn (?bs ! p)"
      using rh(2) pp(1,2) by (rule placed_position)
    moreover have "unat (h AND smask m) = (home ?n (?bs ! p) + 0) mod ?n"
      using i pp(3) by (simp add: home_def)
    ultimately have "get_loop m h k (h AND smask m) = Some (Inr (val (?bs ! p), True))"
      by (intro get_loop_found [OF rh(1-4) p(1)])
    with Some p(2) n0 show ?thesis
      by (simp add: GetWithHash_def)
  qed
qed

section \<open>Changing one bucket\<close>

lemma entries_split:
  assumes "q < length bs"
  shows "entries bs =
    others bs q \<union> (if dib (bs ! q) \<noteq> 0 then {(hash (bs ! q), key (bs ! q), val (bs ! q))} else {})"
  using assms by (auto simp add: entries_def others_def)

lemma others_update [simp]: "others (bs[q := x]) q = others bs q"
  unfolding others_def
  apply (intro Collect_cong ex_cong1)
  subgoal for u p by (cases "p = q") simp_all
  done

lemma entries_update:
  assumes "q < length bs"
  shows "entries (bs[q := x]) =
    others bs q \<union> (if dib x \<noteq> 0 then {(hash x, key x, val x)} else {})"
  using assms entries_split [of q "bs[q := x]"] by simp

lemma others_subset: "others bs q \<subseteq> entries bs"
  by (auto simp add: entries_def others_def)

lemma unique_update:
  assumes "unique bs" and "q < length bs"
    and "dib x \<noteq> 0 \<Longrightarrow> \<forall>p<length bs. p \<noteq> q \<longrightarrow>
           \<not> (dib (bs ! p) \<noteq> 0 \<and> hash (bs ! p) = hash x \<and> key (bs ! p) = key x)"
  shows "unique (bs[q := x])"
  unfolding unique_def
proof (intro allI impI)
  fix p r
  assume p: "p < length (bs[q := x])" and r: "r < length (bs[q := x])"
    and h: "dib (bs[q := x] ! p) \<noteq> 0 \<and> dib (bs[q := x] ! r) \<noteq> 0 \<and>
      hash (bs[q := x] ! p) = hash (bs[q := x] ! r) \<and> key (bs[q := x] ! p) = key (bs[q := x] ! r)"
  have neq: "\<And>a. a \<noteq> q \<Longrightarrow> a < length bs \<Longrightarrow> dib x \<noteq> 0 \<Longrightarrow>
      dib (bs ! a) \<noteq> 0 \<Longrightarrow> hash (bs ! a) = hash x \<Longrightarrow> key (bs ! a) = key x \<Longrightarrow> False"
    using assms(3) by blast
  show "p = r"
  proof (cases "p = q")
    case pq: True
    show ?thesis
    proof (cases "r = q")
      case True
      with pq show ?thesis by simp
    next
      case False
      from pq p have xp: "bs[q := x] ! p = x" by simp
      from False have xr: "bs[q := x] ! r = bs ! r" by simp
      from h have "dib x \<noteq> 0" "dib (bs ! r) \<noteq> 0" "hash (bs ! r) = hash x" "key (bs ! r) = key x"
        unfolding xp xr by simp_all
      with neq [of r] False r show ?thesis by simp
    qed
  next
    case pq: False
    from pq have xp: "bs[q := x] ! p = bs ! p" by simp
    show ?thesis
    proof (cases "r = q")
      case True
      with r have xr: "bs[q := x] ! r = x" by simp
      from h have "dib x \<noteq> 0" "dib (bs ! p) \<noteq> 0" "hash (bs ! p) = hash x" "key (bs ! p) = key x"
        unfolding xp xr by simp_all
      with neq [of p] pq p show ?thesis by simp
    next
      case False
      then have xr: "bs[q := x] ! r = bs ! r" by simp
      from h have "dib (bs ! p) \<noteq> 0 \<and> dib (bs ! r) \<noteq> 0 \<and> hash (bs ! p) = hash (bs ! r) \<and>
          key (bs ! p) = key (bs ! r)"
        unfolding xp xr .
      with p r assms(1) show ?thesis
        unfolding unique_def by simp
    qed
  qed
qed

lemma placed_update:
  assumes "placed bs" and "q < length bs"
    and "dib x \<noteq> 0 \<Longrightarrow> dibn x = (q + length bs - home (length bs) x) mod length bs + 1"
  shows "placed (bs[q := x])"
  using assms by (auto simp add: placed_def nth_list_update)

lemma Suc_mod_inj:
  assumes "Suc p mod n = Suc q mod n" and "p < n" and "q < n"
  shows "p = q"
  using mod_add_inj [of 1 p n q] assms by simp

lemma Suc_mod_neq: "2 \<le> n \<Longrightarrow> q < n \<Longrightarrow> Suc q mod n \<noteq> q"
proof
  assume n: "2 \<le> n" "q < n" and e: "Suc q mod n = q"
  show False
  proof (cases "Suc q = n")
    case True
    with e n show False by simp
  next
    case False
    with n have "Suc q < n" by simp
    with e show False by simp
  qed
qed

lemma ordered_update:
  assumes "ordered bs" and "q < length bs" and "2 \<le> length bs"
    and "\<forall>p<length bs. Suc p mod length bs = q \<longrightarrow> dibn x \<le> dibn (bs ! p) + 1"
    and "dibn (bs ! (Suc q mod length bs)) \<le> dibn x + 1"
  shows "ordered (bs[q := x])"
  unfolding ordered_def
proof (intro allI impI)
  fix p
  let ?n = "length bs"
  assume "p < length (bs[q := x])"
  then have p: "p < ?n" by simp
  have s: "Suc p mod ?n < ?n"
    using p by (rule mod_lt)
  show "dibn (bs[q := x] ! (Suc p mod length (bs[q := x]))) \<le> dibn (bs[q := x] ! p) + 1"
  proof (cases "p = q")
    case True
    then have "Suc p mod ?n \<noteq> q"
      using assms(2,3) by (simp add: Suc_mod_neq)
    with True assms(2,5) show ?thesis by simp
  next
    case False
    show ?thesis
    proof (cases "Suc p mod ?n = q")
      case True
      with False p assms(2,4) show ?thesis by simp
    next
      case sq: False
      with False p assms(1) show ?thesis
        by (simp add: ordered_def)
    qed
  qed
qed

lemma length_filter_update:
  assumes "q < length xs"
  shows "length (filter P (xs[q := x])) + (if P (xs ! q) then 1 else 0) =
         length (filter P xs) + (if P x then 1 else 0)"
proof -
  have "length (filter P xs) = length (filter P (take q xs @ xs ! q # drop (Suc q) xs))"
    by (simp only: id_take_nth_drop [OF assms, symmetric])
  also have "\<dots> =
      length (filter P (take q xs)) + (if P (xs ! q) then 1 else 0) + length (filter P (drop (Suc q) xs))"
    by simp
  finally have a: "length (filter P xs) =
      length (filter P (take q xs)) + (if P (xs ! q) then 1 else 0) + length (filter P (drop (Suc q) xs))" .
  have "length (filter P (xs[q := x])) = length (filter P (take q xs @ x # drop (Suc q) xs))"
    by (simp only: upd_conv_take_nth_drop [OF assms])
  also have "\<dots> =
      length (filter P (take q xs)) + (if P x then 1 else 0) + length (filter P (drop (Suc q) xs))"
    by simp
  finally show ?thesis
    using a by simp
qed

lemma occupied_update:
  assumes "q < length (buckets m)"
  shows "occupied (m\<lparr>buckets := (buckets m)[q := x]\<rparr>) + (if dib (buckets m ! q) \<noteq> 0 then 1 else 0) =
         occupied m + (if dib x \<noteq> 0 then 1 else 0)"
  using length_filter_update [OF assms, of "\<lambda>b. dib b \<noteq> 0" x]
  by (simp add: occupied_def)

lemma occupied_slength_update [simp]: "occupied (m\<lparr>slength := l\<rparr>) = occupied m"
  by (simp add: occupied_def)

lemma content_entries:
  assumes "unique (buckets m)"
  shows "content m (h, k) = Some v \<longleftrightarrow> (h, k, v) \<in> entries (buckets m)"
proof
  assume "content m (h, k) = Some v"
  then obtain p where "holds (buckets m) p h k" "val (buckets m ! p) = v"
    by (rule content_Some_holds)
  then show "(h, k, v) \<in> entries (buckets m)"
    by (auto simp add: entries_def holds_def)
next
  assume "(h, k, v) \<in> entries (buckets m)"
  then obtain p where "holds (buckets m) p h k" "val (buckets m ! p) = v"
    by (auto simp add: entries_def holds_def)
  with assms show "content m (h, k) = Some v"
    by (simp add: content_holds)
qed

lemma content_None_entries:
  "content m (h, k) = None \<longleftrightarrow> (\<forall>v. (h, k, v) \<notin> entries (buckets m))"
  by (auto simp add: content_None_iff entries_def holds_def)


section \<open>Insertion of a new entry\<close>

lemma shift_succ:
  assumes "H < n" and "(q + n - H) mod n + 1 < n"
  shows "(Suc q mod n + n - H) mod n = (q + n - H) mod n + 1"
proof -
  have "(Suc q mod n + n - H) mod n = (Suc q mod n + (n - H)) mod n"
    using assms(1) by simp
  also have "\<dots> = (Suc q + (n - H)) mod n"
    by (simp add: mod_add_left_eq)
  also have "\<dots> = Suc (q + n - H) mod n"
    using assms(1) by simp
  also have "\<dots> = Suc ((q + n - H) mod n) mod n"
    by (simp add: mod_Suc_eq)
  also have "\<dots> = Suc ((q + n - H) mod n)"
    using assms(2) by simp
  finally show ?thesis by simp
qed

lemma inserted_swap:
  assumes "q < length (buckets m)" and "dib (buckets m ! q) \<noteq> 0" and "dib w \<noteq> 0"
    and "inserted (m\<lparr>buckets := (buckets m)[q := w]\<rparr>)
           (hash (buckets m ! q), key (buckets m ! q), val (buckets m ! q)) m'"
  shows "inserted m (hash w, key w, val w) m'"
proof -
  let ?m1 = "m\<lparr>buckets := (buckets m)[q := w]\<rparr>"
  have o: "occupied ?m1 = occupied m"
    using occupied_update [OF assms(1), of w] assms(2,3) by simp
  have e1: "entries (buckets ?m1) = others (buckets m) q \<union> {(hash w, key w, val w)}"
    using entries_update [OF assms(1), of w] assms(3) by simp
  have e0: "entries (buckets m) =
      others (buckets m) q \<union> {(hash (buckets m ! q), key (buckets m ! q), val (buckets m ! q))}"
    using entries_split [OF assms(1)] assms(2) by simp
  have "entries (buckets m') = insert (hash w, key w, val w) (entries (buckets m))"
    using assms(4) unfolding inserted_def e1 by (subst e0) auto
  with assms(4) o show ?thesis
    by (simp add: inserted_def framed_def)
qed

lemma set_loop_empty:
  fixes m :: "('k::zero, 'v::zero) mapShard"
  assumes "shaped m" and "2 \<le> length (buckets m)"
    and "placed (buckets m)" and "ordered (buckets m)" and "unique (buckets m)"
    and "unat i < length (buckets m)"
    and "dib (buckets m ! unat i) = 0"
    and "dibn w =
      (unat i + length (buckets m) - home (length (buckets m)) w) mod length (buckets m) + 1"
    and "\<forall>p<length (buckets m). Suc p mod length (buckets m) = unat i \<longrightarrow>
           dibn w \<le> dibn (buckets m ! p) + 1"
    and "\<forall>p. \<not> holds (buckets m) p (hash w) (key w)"
  shows "\<exists>m'. set_loop m w i = Some (Inr ((0, False), m')) \<and> inserted m (hash w, key w, val w) m'"
proof -
  let ?bs = "buckets m" and ?n = "length (buckets m)" and ?q = "unat i"
  let ?m' = "m\<lparr>buckets := ?bs[?q := w], slength := slength m + 1\<rparr>"
  have run: "set_loop m w i = Some (Inr ((0, False), ?m'))"
    using assms(6,7) by (subst set_loop.simps) simp
  have wnz: "dib w \<noteq> 0"
    using assms(8) by (simp add: dib_eq_0_iff)
  have nx: "Suc ?q mod ?n < ?n"
    using assms(6) by (rule mod_lt)
  have nxq: "Suc ?q mod ?n \<noteq> ?q"
    using assms(2,6) by (rule Suc_mod_neq)
  have d0: "dibn (?bs ! ?q) = 0"
    using assms(7) by (simp add: dib_eq_0_iff)
  have d1: "dibn (?bs ! (Suc ?q mod ?n)) \<le> 1"
    using assms(4,6) d0 by (auto simp add: ordered_def)
  have "placed (?bs[?q := w])"
    using assms(3,6,8) by (intro placed_update) simp_all
  moreover have "ordered (?bs[?q := w])"
    using assms(4,6,2,9) d1 by (intro ordered_update) simp_all
  moreover have "unique (?bs[?q := w])"
    using assms(5,6,10) by (intro unique_update) (simp_all add: holds_def)
  moreover have "anchored (?bs[?q := w])"
    unfolding anchored_def using nx nxq d1 by (intro exI [of _ "Suc ?q mod ?n"]) simp
  moreover have "occupied ?m' = occupied m + 1"
    using occupied_update [OF assms(6), of w] assms(7) wnz by simp
  moreover have "entries (?bs[?q := w]) = insert (hash w, key w, val w) (entries ?bs)"
    using entries_update [OF assms(6), of w] entries_split [OF assms(6)] assms(7) wnz by simp
  ultimately have "inserted m (hash w, key w, val w) ?m'"
    by (simp add: inserted_def framed_def)
  with run show ?thesis by blast
qed


lemma set_loop_insert:
  fixes m :: "('k::zero, 'v::zero) mapShard"
  assumes "shaped m" and "2 \<le> length (buckets m)"
    and "placed (buckets m)" and "ordered (buckets m)" and "unique (buckets m)"
    and "unat i < length (buckets m)"
    and "dib (buckets m ! ((unat i + e) mod length (buckets m))) = 0"
    and "dibn w + e \<le> length (buckets m)" and "dibn w + e \<le> 65535"
    and "dibn w =
      (unat i + length (buckets m) - home (length (buckets m)) w) mod length (buckets m) + 1"
    and "\<forall>p<length (buckets m). Suc p mod length (buckets m) = unat i \<longrightarrow>
           dibn w \<le> dibn (buckets m ! p) + 1"
    and "\<forall>p. \<not> holds (buckets m) p (hash w) (key w)"
  shows "\<exists>m'. set_loop m w i = Some (Inr ((0, False), m')) \<and> inserted m (hash w, key w, val w) m'"
  using assms
proof (induction e arbitrary: m w i)
  case 0
  then show ?case by (intro set_loop_empty) simp_all
next
  case (Suc e)
  let ?bs = "buckets m" and ?n = "length (buckets m)" and ?q = "unat i"
  let ?i' = "(i + 1) AND smask m"
  note sh = Suc.prems(1) and n2 = Suc.prems(2) and pl = Suc.prems(3) and ord = Suc.prems(4)
    and un = Suc.prems(5) and q = Suc.prems(6) and emp = Suc.prems(7) and bn = Suc.prems(8)
    and bw = Suc.prems(9) and wp = Suc.prems(10) and wo = Suc.prems(11) and absent = Suc.prems(12)
  have i': "unat ?i' = Suc ?q mod ?n"
    using sh q by (rule unat_next)
  have i'n: "unat ?i' < ?n"
    using sh q by (rule unat_next_less)
  have far: "(unat ?i' + e) mod ?n = (?q + Suc e) mod ?n"
    unfolding i' by (simp add: mod_add_left_eq)
  show ?case
  proof (cases "dib (?bs ! ?q) = 0")
    case True
    with Suc.prems show ?thesis by (intro set_loop_empty) simp_all
  next
    case occ: False
    have nomatch: "\<not> (hash w = hash (?bs ! ?q) \<and> key w = key (?bs ! ?q))"
      using absent q occ by (auto simp add: holds_def)
    have w1: "dibn w < 65535" and w2: "dibn w < ?n"
      using bn bw by simp_all
    show ?thesis
    proof (cases "dib (?bs ! ?q) < dib w")
      case True
      let ?b = "?bs ! ?q"
      let ?r = "setDIB ?b (dib ?b + 1)"
      let ?m1 = "m\<lparr>buckets := ?bs[?q := w]\<rparr>"
      have lt: "dibn ?b < dibn w"
        using True by (simp add: dib_less_iff)
      have step: "set_loop m w i = set_loop ?m1 ?r ?i'"
        using q occ nomatch True by (subst set_loop.simps) auto
      have dr: "dibn ?r = Suc (dibn ?b)"
        using lt w1 by (intro dibn_setDIB_succ) simp
      have wnz: "dib w \<noteq> 0"
        using lt by (simp add: dib_eq_0_iff)
      have db: "dibn ?b = (?q + ?n - home ?n ?b) mod ?n + 1"
        using pl q occ by (simp add: placed_def)
      have Hb: "home ?n ?b < ?n"
        unfolding home_def using q by (rule mod_lt)
      have nxt: "dibn (?bs ! (Suc ?q mod ?n)) \<le> dibn w + 1"
        using ord q lt by (auto simp add: ordered_def dest: spec [of _ "?q"])
      have farq: "(?q + Suc e) mod ?n \<noteq> ?q"
        using emp occ by auto
      have "\<exists>m'. set_loop ?m1 ?r ?i' = Some (Inr ((0, False), m')) \<and>
          inserted ?m1 (hash ?r, key ?r, val ?r) m'"
      proof (rule Suc.IH)
        show "shaped ?m1"
          using sh by simp
        show "2 \<le> length (buckets ?m1)"
          using n2 by simp
        show "placed (buckets ?m1)"
          using pl q wp by (simp add: placed_update)
        show "ordered (buckets ?m1)"
          using ord q n2 wo nxt by (simp add: ordered_update)
        show "unique (buckets ?m1)"
          using un q absent by (simp add: unique_update holds_def)
        show "unat ?i' < length (buckets ?m1)"
          using i'n by simp
        show "dib (buckets ?m1 ! ((unat ?i' + e) mod length (buckets ?m1))) = 0"
          using emp farq by (simp add: far)
        show "dibn ?r + e \<le> length (buckets ?m1)"
          using dr lt bn by simp
        show "dibn ?r + e \<le> 65535"
          using dr lt bw by simp
        have "(Suc ?q mod ?n + ?n - home ?n ?b) mod ?n = (?q + ?n - home ?n ?b) mod ?n + 1"
          using Hb db lt w2 by (intro shift_succ) simp_all
        then show "dibn ?r = (unat ?i' + length (buckets ?m1) - home (length (buckets ?m1)) ?r)
            mod length (buckets ?m1) + 1"
          using dr db by (simp add: i')
        show "\<forall>p<length (buckets ?m1). Suc p mod length (buckets ?m1) = unat ?i' \<longrightarrow>
            dibn ?r \<le> dibn (buckets ?m1 ! p) + 1"
        proof (intro allI impI)
          fix p
          assume "p < length (buckets ?m1)" and "Suc p mod length (buckets ?m1) = unat ?i'"
          then have "p = ?q"
            using q by (intro Suc_mod_inj [of p ?n]) (simp_all add: i')
          then show "dibn ?r \<le> dibn (buckets ?m1 ! p) + 1"
            using q dr lt by simp
        qed
        show "\<forall>p. \<not> holds (buckets ?m1) p (hash ?r) (key ?r)"
        proof (intro allI notI)
          fix p
          assume h: "holds (buckets ?m1) p (hash ?r) (key ?r)"
          show False
          proof (cases "p = ?q")
            case True
            with h q nomatch show False
              by (simp add: holds_def)
          next
            case False
            with h have "p < ?n" "dib (?bs ! p) \<noteq> 0" "hash (?bs ! p) = hash ?b" "key (?bs ! p) = key ?b"
              by (simp_all add: holds_def)
            with un q occ have "p = ?q"
              unfolding unique_def by blast
            with False show False by simp
          qed
        qed
      qed
      then obtain m' where run: "set_loop ?m1 ?r ?i' = Some (Inr ((0, False), m'))"
        and ins: "inserted ?m1 (hash ?b, key ?b, val ?b) m'"
        by auto
      from q occ wnz ins have "inserted m (hash w, key w, val w) m'"
        by (rule inserted_swap)
      with run step show ?thesis by simp
    next
      case False
      let ?w' = "setDIB w (dib w + 1)"
      have ge: "dibn w \<le> dibn (?bs ! ?q)"
        using False by (simp add: dib_less_iff)
      have step: "set_loop m w i = set_loop m ?w' ?i'"
        using q occ nomatch False by (subst set_loop.simps) auto
      have dw: "dibn ?w' = Suc (dibn w)"
        using w1 by (rule dibn_setDIB_succ)
      have Hw: "home ?n w < ?n"
        unfolding home_def using q by (rule mod_lt)
      have "\<exists>m'. set_loop m ?w' ?i' = Some (Inr ((0, False), m')) \<and>
          inserted m (hash ?w', key ?w', val ?w') m'"
      proof (rule Suc.IH)
        show "shaped m" "2 \<le> ?n" "placed ?bs" "ordered ?bs" "unique ?bs" "unat ?i' < ?n"
          by (fact sh n2 pl ord un i'n)+
        show "dib (?bs ! ((unat ?i' + e) mod ?n)) = 0"
          using emp by (simp add: far)
        show "dibn ?w' + e \<le> ?n"
          using dw bn by simp
        show "dibn ?w' + e \<le> 65535"
          using dw bw by simp
        have "(Suc ?q mod ?n + ?n - home ?n w) mod ?n = (?q + ?n - home ?n w) mod ?n + 1"
          using Hw wp w2 by (intro shift_succ) simp_all
        then show "dibn ?w' = (unat ?i' + ?n - home ?n ?w') mod ?n + 1"
          using dw wp by (simp add: i')
        show "\<forall>p<?n. Suc p mod ?n = unat ?i' \<longrightarrow> dibn ?w' \<le> dibn (?bs ! p) + 1"
        proof (intro allI impI)
          fix p
          assume "p < ?n" and "Suc p mod ?n = unat ?i'"
          then have "p = ?q"
            using q by (intro Suc_mod_inj [of p ?n]) (simp_all add: i')
          then show "dibn ?w' \<le> dibn (?bs ! p) + 1"
            using dw ge by simp
        qed
        show "\<forall>p. \<not> holds ?bs p (hash ?w') (key ?w')"
          using absent by simp
      qed
      with step show ?thesis by simp
    qed
  qed
qed

section \<open>Replacement of a stored value\<close>

lemma set_loop_replace:
  fixes m :: "('k::zero, 'v::zero) mapShard"
  assumes "shaped m" and "placed (buckets m)" and "ordered (buckets m)" and "unique (buckets m)"
    and "holds (buckets m) p (hash w) (key w)"
    and "t < dibn (buckets m ! p)"
    and "unat i = (home (length (buckets m)) (buckets m ! p) + t) mod length (buckets m)"
    and "dibn w = Suc t"
  shows "set_loop m w i = Some (Inr ((val (buckets m ! p), True), revalued m p (val w)))"
  using assms(5-8)
proof (induction "dibn (buckets m ! p) - t" arbitrary: t i w)
  case 0
  then show ?case by simp
next
  case (Suc x)
  let ?bs = "buckets m" and ?n = "length (buckets m)"
  let ?H = "home ?n (?bs ! p)" and ?d = "dibn (?bs ! p)"
  have p: "p < ?n" "dib (?bs ! p) \<noteq> 0" "hash (?bs ! p) = hash w" "key (?bs ! p) = key w"
    using Suc.prems(1) by (simp_all add: holds_def)
  have i: "unat i < ?n"
    unfolding Suc.prems(3) using p(1) by (rule mod_lt)
  have occ: "Suc t \<le> dibn (?bs ! unat i)"
    unfolding Suc.prems(3) using assms(2,3) p(1,2) Suc.prems(2) by (rule path_occupied)
  then have nz: "dib (?bs ! unat i) \<noteq> 0"
    by (simp add: dib_eq_0_iff)
  have nl: "\<not> dib (?bs ! unat i) < dib w"
    using occ Suc.prems(4) by (simp add: dib_less_iff)
  show ?case
  proof (cases "unat i = p")
    case True
    with i p nz show ?thesis
      by (subst set_loop.simps) (simp add: revalued_def)
  next
    case False
    have nm: "\<not> (hash w = hash (?bs ! unat i) \<and> key w = key (?bs ! unat i))"
    proof
      assume "hash w = hash (?bs ! unat i) \<and> key w = key (?bs ! unat i)"
      with assms(4) i nz p have "unat i = p"
        by (simp add: unique_def)
      with False show False by simp
    qed
    have t: "Suc t < ?d"
    proof (rule ccontr)
      assume "\<not> Suc t < ?d"
      with Suc.prems(2) have "t = ?d - 1" by simp
      then have "unat i = (?H + (?d - 1)) mod ?n"
        using Suc.prems(3) by simp
      also have "\<dots> = p"
        using assms(2) p(1,2) by (rule placed_position)
      finally show False using False by simp
    qed
    let ?w' = "setDIB w (dib w + 1)"
    have "dibn w < 65535"
      using t Suc.prems(4) dibn_less [of "?bs ! p"] by simp
    then have dw: "dibn ?w' = Suc (Suc t)"
      using Suc.prems(4) by (simp add: dibn_setDIB_succ)
    have "unat ((i + 1) AND smask m) = Suc (unat i) mod ?n"
      using assms(1) i by (rule unat_next)
    also have "\<dots> = (?H + Suc t) mod ?n"
      unfolding Suc.prems(3) by (rule Suc_mod_add)
    finally have eq: "unat ((i + 1) AND smask m) = (?H + Suc t) mod ?n" .
    have h': "holds ?bs p (hash ?w') (key ?w')"
      using Suc.prems(1) by simp
    from Suc.hyps(2) have "x = ?d - Suc t" by simp
    then have "set_loop m ?w' ((i + 1) AND smask m) =
        Some (Inr ((val (?bs ! p), True), revalued m p (val ?w')))"
      using h' t eq dw by (rule Suc.hyps(1))
    with i nz nm nl show ?thesis
      by (subst set_loop.simps) auto
  qed
qed

lemma revalued_fields [simp]:
  "length (buckets (revalued m p v)) = length (buckets m)"
  "smask (revalued m p v) = smask m" "scap (revalued m p v) = scap m"
  "growAt (revalued m p v) = growAt m" "shrinkAt (revalued m p v) = shrinkAt m"
  "slength (revalued m p v) = slength m"
  by (simp_all add: revalued_def)

lemma revalued_nth:
  "dib (buckets (revalued m p v) ! j) = dib (buckets m ! j)"
  "hash (buckets (revalued m p v) ! j) = hash (buckets m ! j)"
  "key (buckets (revalued m p v) ! j) = key (buckets m ! j)"
  "dibn (buckets (revalued m p v) ! j) = dibn (buckets m ! j)"
  "home n (buckets (revalued m p v) ! j) = home n (buckets m ! j)"
proof -
  have "buckets (revalued m p v) ! j =
      (if j = p \<and> p < length (buckets m) then (buckets m ! j)\<lparr>val := v\<rparr> else buckets m ! j)"
    by (cases "p < length (buckets m)") (simp_all add: revalued_def nth_list_update list_update_beyond)
  then show "dib (buckets (revalued m p v) ! j) = dib (buckets m ! j)"
    "hash (buckets (revalued m p v) ! j) = hash (buckets m ! j)"
    "key (buckets (revalued m p v) ! j) = key (buckets m ! j)"
    "dibn (buckets (revalued m p v) ! j) = dibn (buckets m ! j)"
    "home n (buckets (revalued m p v) ! j) = home n (buckets m ! j)"
    by simp_all
qed

lemma revalued_invariants:
  "shaped (revalued m p v) = shaped m"
  "placed (buckets (revalued m p v)) = placed (buckets m)"
  "ordered (buckets (revalued m p v)) = ordered (buckets m)"
  "unique (buckets (revalued m p v)) = unique (buckets m)"
  "anchored (buckets (revalued m p v)) = anchored (buckets m)"
  by (simp_all add: shaped_def placed_def ordered_def unique_def anchored_def revalued_nth)

lemma occupied_revalued [simp]: "occupied (revalued m p v) = occupied m"
proof (cases "p < length (buckets m)")
  case True
  from occupied_update [OF True, of "(buckets m ! p)\<lparr>val := v\<rparr>"] show ?thesis
    by (simp add: revalued_def)
next
  case False
  then show ?thesis by (simp add: revalued_def occupied_def list_update_beyond)
qed

lemma robin_hood_revalued: "robin_hood (revalued m p v) = robin_hood m"
  by (simp add: robin_hood_def revalued_invariants)

lemma entries_revalued:
  assumes "holds (buckets m) p h k"
  shows "entries (buckets (revalued m p v)) = others (buckets m) p \<union> {(h, k, v)}"
  using assms entries_update [of p "buckets m" "(buckets m ! p)\<lparr>val := v\<rparr>"]
  by (simp add: revalued_def holds_def)


section \<open>The content after a change\<close>

lemma content_changed:
  assumes "unique (buckets m)" and "unique (buckets m')"
    and "\<And>h2 k2 u. (h2, k2) \<noteq> (h, k) \<Longrightarrow>
           ((h2, k2, u) \<in> entries (buckets m')) = ((h2, k2, u) \<in> entries (buckets m))"
    and "content m' (h, k) = r"
  shows "content m' = (content m)((h, k) := r)"
proof (rule ext)
  fix x :: "u64 \<times> 'a"
  obtain h2 k2 where x: "x = (h2, k2)" by (cases x)
  show "content m' x = ((content m)((h, k) := r)) x"
  proof (cases "x = (h, k)")
    case True
    with assms(4) show ?thesis by simp
  next
    case False
    then have ne: "(h2, k2) \<noteq> (h, k)" by (simp add: x)
    have "content m' (h2, k2) = content m (h2, k2)"
    proof (cases "content m (h2, k2)")
      case None
      then have "\<forall>u. (h2, k2, u) \<notin> entries (buckets m')"
        using assms(3) [OF ne] by (simp add: content_None_entries)
      then have "content m' (h2, k2) = None"
        by (simp add: content_None_entries)
      with None show ?thesis
        by simp
    next
      case (Some u)
      then have "(h2, k2, u) \<in> entries (buckets m')"
        using assms(3) [OF ne] assms(1) by (simp add: content_entries)
      with Some assms(2) show ?thesis
        by (simp add: content_entries)
    qed
    with ne show ?thesis unfolding x by auto
  qed
qed

lemma inserted_content:
  assumes "unique (buckets m)" and "inserted m (h, k, v) m'"
  shows "content m' = (content m)((h, k) \<mapsto> v)"
proof (rule content_changed [OF assms(1)])
  show u: "unique (buckets m')"
    using assms(2) by (simp add: inserted_def)
  show "content m' (h, k) = Some v"
    using assms(2) u by (simp add: content_entries inserted_def)
  show "((h2, k2, u) \<in> entries (buckets m')) = ((h2, k2, u) \<in> entries (buckets m))"
    if "(h2, k2) \<noteq> (h, k)" for h2 k2 u
    using assms(2) that by (auto simp add: inserted_def)
qed

lemma inserted_robin_hood:
  assumes "robin_hood m" and "inserted m t m'"
  shows "robin_hood m'"
  using assms by (simp add: robin_hood_def inserted_def framed_def shaped_def)

lemma revalued_content:
  assumes "unique (buckets m)" and "holds (buckets m) p h k"
  shows "content (revalued m p v) = (content m)((h, k) \<mapsto> v)"
proof (rule content_changed [OF assms(1)])
  have p: "p < length (buckets m)" "dib (buckets m ! p) \<noteq> 0"
    "hash (buckets m ! p) = h" "key (buckets m ! p) = k"
    using assms(2) by (simp_all add: holds_def)
  show u: "unique (buckets (revalued m p v))"
    using assms(1) by (simp add: revalued_invariants)
  have e: "entries (buckets (revalued m p v)) = others (buckets m) p \<union> {(h, k, v)}"
    using assms(2) by (rule entries_revalued)
  then show "content (revalued m p v) (h, k) = Some v"
    using u by (simp add: content_entries)
  show "((h2, k2, u) \<in> entries (buckets (revalued m p v))) = ((h2, k2, u) \<in> entries (buckets m))"
    if "(h2, k2) \<noteq> (h, k)" for h2 k2 u
    using that p unfolding e by (subst entries_split [OF p(1)]) auto
qed

section \<open>Room for a new entry\<close>

lemma two_empty_slots:
  assumes "occupied m + 2 \<le> length (buckets m)"
  shows "\<exists>z z'. z < length (buckets m) \<and> z' < length (buckets m) \<and> z \<noteq> z' \<and>
           dib (buckets m ! z) = 0 \<and> dib (buckets m ! z') = 0"
proof -
  from assms have "occupied m < length (buckets m)" by simp
  then obtain z where z: "z < length (buckets m)" "dib (buckets m ! z) = 0"
    using exists_empty_slot by blast
  let ?x = "setDIB (buckets m ! z) 1"
  let ?m1 = "m\<lparr>buckets := (buckets m)[z := ?x]\<rparr>"
  have x: "dib ?x \<noteq> 0"
    by (simp add: mask_16)
  have "occupied ?m1 = occupied m + 1"
    using occupied_update [OF z(1), of ?x] z(2) x by simp
  with assms have "occupied ?m1 < length (buckets ?m1)" by simp
  then obtain z' where z': "z' < length (buckets ?m1)" "dib (buckets ?m1 ! z') = 0"
    using exists_empty_slot by blast
  with x z(1) have "z' \<noteq> z" by auto
  with z z' show ?thesis
    by (intro exI [of _ z] exI [of _ z']) simp
qed

lemma dist_back:
  assumes "H < n" and "z < (n :: nat)"
  shows "(H + (z + n - H) mod n) mod n = z"
proof -
  have "(H + (z + n - H) mod n) mod n = (H + (z + n - H)) mod n"
    by (simp add: mod_add_right_eq)
  also have "\<dots> = z"
    using assms by simp
  finally show ?thesis .
qed

lemma near_empty_slot:
  assumes "H < length (buckets m)" and "occupied m < length (buckets m)"
    and "length (buckets m) \<le> 32768 \<or> occupied m + 2 \<le> length (buckets m)"
    and "length (buckets m) \<le> 65536"
  shows "\<exists>e. dib (buckets m ! ((H + e) mod length (buckets m))) = 0 \<and>
           Suc e \<le> length (buckets m) \<and> Suc e \<le> 65535"
proof -
  let ?n = "length (buckets m)"
  let ?d = "\<lambda>z. (z + ?n - H) mod ?n"
  have d: "?d z < ?n" for z
    using assms(1) by (rule mod_lt)
  show ?thesis
  proof (cases "?n \<le> 32768")
    case True
    obtain z where z: "z < ?n" "dib (buckets m ! z) = 0"
      using exists_empty_slot [OF assms(2)] by blast
    have "dib (buckets m ! ((H + ?d z) mod ?n)) = 0"
      using z by (simp only: dist_back [OF assms(1) z(1)])
    moreover have "Suc (?d z) \<le> ?n" "Suc (?d z) \<le> 65535"
      using d [of z] True by simp_all
    ultimately show ?thesis by blast
  next
    case False
    with assms(3) obtain z z' where z: "z < ?n" "z' < ?n" "z \<noteq> z'"
      "dib (buckets m ! z) = 0" "dib (buckets m ! z') = 0"
      using two_empty_slots by blast
    have b: "(H + ?d z) mod ?n = z" "(H + ?d z') mod ?n = z'"
      using assms(1) z(1,2) by (simp_all only: dist_back)
    with z(3) have "?d z \<noteq> ?d z'" by metis
    with d [of z] d [of z'] assms(4) have "Suc (?d z) \<le> 65535 \<or> Suc (?d z') \<le> 65535"
      by linarith
    then show ?thesis
    proof
      assume "Suc (?d z) \<le> 65535"
      moreover have "dib (buckets m ! ((H + ?d z) mod ?n)) = 0"
        using z(4) by (simp only: b)
      moreover have "Suc (?d z) \<le> ?n"
        using d [of z] by simp
      ultimately show ?thesis by blast
    next
      assume "Suc (?d z') \<le> 65535"
      moreover have "dib (buckets m ! ((H + ?d z') mod ?n)) = 0"
        using z(5) by (simp only: b)
      moreover have "Suc (?d z') \<le> ?n"
        using d [of z'] by simp
      ultimately show ?thesis by blast
    qed
  qed
qed

section \<open>set\<close>

lemma set_shard_absent:
  fixes m :: "('k::zero, 'v::zero) mapShard"
  assumes "robin_hood m" and "h < 2 ^ 48" and "content m (h, k) = None"
    and "occupied m < length (buckets m)"
    and "length (buckets m) \<le> 32768 \<or> occupied m + 2 \<le> length (buckets m)"
  shows "\<exists>m'. set_shard m h k v = Some (Inr ((0, False), m')) \<and> inserted m (h, k, v) m'"
proof -
  let ?bs = "buckets m" and ?n = "length (buckets m)"
  let ?w = "\<lparr>hdib = makeHDIB h 1, key = k, val = v\<rparr>"
  let ?i = "hash ?w AND smask m"
  have rh: "shaped m" "placed ?bs" "ordered ?bs" "unique ?bs" "8 \<le> ?n" "?n \<le> 65536"
    using assms(1) by (simp_all add: robin_hood_def)
  have hw: "hash ?w = h"
    using assms(2) by (simp add: take_bit_48_id)
  have i: "unat ?i = unat h mod ?n"
    using rh(1) by (simp add: unat_home hw del: hash_makeHDIB)
  have hm: "home ?n ?w = unat h mod ?n"
    by (simp add: home_def hw del: hash_makeHDIB)
  have il: "unat ?i < ?n"
    using rh(1) by (rule unat_home_less)
  obtain e where e: "dib (?bs ! ((unat ?i + e) mod ?n)) = 0" "Suc e \<le> ?n" "Suc e \<le> 65535"
    using near_empty_slot [OF il assms(4,5) rh(6)] by blast
  have "\<exists>m'. set_loop m ?w ?i = Some (Inr ((0, False), m')) \<and>
      inserted m (hash ?w, key ?w, val ?w) m'"
  proof (rule set_loop_insert [where e = e])
    show "shaped m" "placed ?bs" "ordered ?bs" "unique ?bs" "unat ?i < ?n"
      by (fact rh il)+
    show "2 \<le> ?n"
      using rh(5) by simp
    show "dib (?bs ! ((unat ?i + e) mod ?n)) = 0"
      by (fact e)
    show "dibn ?w + e \<le> ?n" "dibn ?w + e \<le> 65535"
      using e(2,3) by simp_all
    show "dibn ?w = (unat ?i + ?n - home ?n ?w) mod ?n + 1"
      unfolding i hm by simp
    show "\<forall>p<?n. Suc p mod ?n = unat ?i \<longrightarrow> dibn ?w \<le> dibn (?bs ! p) + 1"
      by simp
    show "\<forall>p. \<not> holds ?bs p (hash ?w) (key ?w)"
      using assms(3) unfolding hw by (simp add: content_None_iff)
  qed
  then show ?thesis
    using take_bit_48_id [OF assms(2)] by (simp add: set_shard_def)
qed

lemma set_shard_present:
  fixes m :: "('k::zero, 'v::zero) mapShard"
  assumes "robin_hood m" and "h < 2 ^ 48" and "holds (buckets m) p h k"
  shows "set_shard m h k v = Some (Inr ((val (buckets m ! p), True), revalued m p v))"
proof -
  let ?bs = "buckets m" and ?n = "length (buckets m)"
  let ?w = "\<lparr>hdib = makeHDIB h 1, key = k, val = v\<rparr>"
  let ?i = "hash ?w AND smask m"
  have rh: "shaped m" "placed ?bs" "ordered ?bs" "unique ?bs"
    using assms(1) by (simp_all add: robin_hood_def)
  have hw: "hash ?w = h"
    using assms(2) by (simp add: take_bit_48_id)
  have p: "p < ?n" "dib (?bs ! p) \<noteq> 0" "hash (?bs ! p) = h"
    using assms(3) by (simp_all add: holds_def)
  have "set_loop m ?w ?i = Some (Inr ((val (?bs ! p), True), revalued m p (val ?w)))"
  proof (rule set_loop_replace [where t = 0])
    show "shaped m" "placed ?bs" "ordered ?bs" "unique ?bs"
      by (fact rh)+
    show "holds ?bs p (hash ?w) (key ?w)"
      using assms(3) unfolding hw by simp
    show "0 < dibn (?bs ! p)"
      using rh(2) p(1,2) by (rule placed_position)
    show "unat ?i = (home ?n (?bs ! p) + 0) mod ?n"
      using rh(1) p(3) by (simp add: unat_home home_def hw del: hash_makeHDIB)
    show "dibn ?w = Suc 0"
      by simp
  qed
  then show ?thesis
    by (simp add: set_shard_def)
qed

section \<open>resize\<close>

lemma hash_less: "hash b < 2 ^ 48"
  using makeHash_less [of "hdib b"] by (simp add: hash_def makeHash_def)

lemma content_same:
  assumes "unique (buckets m)" and "unique (buckets m')"
    and "entries (buckets m') = entries (buckets m)"
  shows "content m' = content m"
proof (rule ext)
  fix x :: "u64 \<times> 'a"
  obtain h k where x: "x = (h, k)" by (cases x)
  have "content m' (h, k) = content m (h, k)"
  proof (cases "content m (h, k)")
    case None
    then have "content m' (h, k) = None"
      using assms(3) by (simp add: content_None_entries)
    with None show ?thesis by simp
  next
    case (Some u)
    then have "(h, k, u) \<in> entries (buckets m')"
      using assms(1,3) by (simp add: content_entries)
    with Some assms(2) show ?thesis
      by (simp add: content_entries)
  qed
  then show "content m' x = content m x"
    by (simp add: x)
qed

lemma content_scap_update [simp]: "content (m\<lparr>scap := c\<rparr>) = content m"
  by (simp add: content_def)

lemma content_slength_update [simp]: "content (m\<lparr>slength := c\<rparr>) = content m"
  by (simp add: content_def)

lemma robin_hood_scap_update [simp]: "robin_hood (m\<lparr>scap := c\<rparr>) = robin_hood m"
  by (simp add: robin_hood_def shaped_def occupied_def)

lemma framed_refl [simp]: "framed m m"
  by (simp add: framed_def)

lemma framed_trans: "framed a b \<Longrightarrow> framed b c \<Longrightarrow> framed a c"
  by (simp add: framed_def)

lemma entries_Cons:
  "entries (b # bs) = (if dib b \<noteq> 0 then {(hash b, key b, val b)} else {}) \<union> entries bs"
proof (intro set_eqI iffI)
  fix x
  assume "x \<in> entries (b # bs)"
  then obtain p where p: "p < length (b # bs)" "dib ((b # bs) ! p) \<noteq> 0"
    "x = (hash ((b # bs) ! p), key ((b # bs) ! p), val ((b # bs) ! p))"
    by (auto simp add: entries_def)
  show "x \<in> (if dib b \<noteq> 0 then {(hash b, key b, val b)} else {}) \<union> entries bs"
  proof (cases p)
    case 0
    with p show ?thesis by simp
  next
    case (Suc p')
    with p have "p' < length bs \<and> dib (bs ! p') \<noteq> 0 \<and>
        x = (hash (bs ! p'), key (bs ! p'), val (bs ! p'))"
      by simp
    then have "x \<in> entries bs"
      unfolding entries_def by blast
    then show ?thesis by simp
  qed
next
  fix x
  assume "x \<in> (if dib b \<noteq> 0 then {(hash b, key b, val b)} else {}) \<union> entries bs"
  then consider "dib b \<noteq> 0" "x = (hash b, key b, val b)" | "x \<in> entries bs"
    by (auto split: if_splits)
  then show "x \<in> entries (b # bs)"
  proof cases
    case 1
    then have "0 < length (b # bs) \<and> dib ((b # bs) ! 0) \<noteq> 0 \<and>
        x = (hash ((b # bs) ! 0), key ((b # bs) ! 0), val ((b # bs) ! 0))"
      by simp
    then show ?thesis
      unfolding entries_def by blast
  next
    case 2
    then obtain p where "p < length bs" "dib (bs ! p) \<noteq> 0"
      "x = (hash (bs ! p), key (bs ! p), val (bs ! p))"
      by (auto simp add: entries_def)
    then have "Suc p < length (b # bs) \<and> dib ((b # bs) ! Suc p) \<noteq> 0 \<and>
        x = (hash ((b # bs) ! Suc p), key ((b # bs) ! Suc p), val ((b # bs) ! Suc p))"
      by simp
    then show ?thesis
      unfolding entries_def by blast
  qed
qed

lemma entries_Nil [simp]: "entries [] = {}"
  by (simp add: entries_def)

lemma unique_Cons:
  assumes "unique (b # bs)"
  shows "unique bs"
    and "dib b \<noteq> 0 \<Longrightarrow> \<forall>c \<in> set bs. dib c \<noteq> 0 \<longrightarrow> \<not> (hash c = hash b \<and> key c = key b)"
proof -
  have u: "\<forall>p<length (b # bs). \<forall>q<length (b # bs).
      dib ((b # bs) ! p) \<noteq> 0 \<and> dib ((b # bs) ! q) \<noteq> 0 \<and> hash ((b # bs) ! p) = hash ((b # bs) ! q) \<and>
      key ((b # bs) ! p) = key ((b # bs) ! q) \<longrightarrow> p = q"
    using assms unfolding unique_def .
  show "unique bs"
    unfolding unique_def
  proof (intro allI impI)
    fix p q
    assume "p < length bs" "q < length bs"
      and "dib (bs ! p) \<noteq> 0 \<and> dib (bs ! q) \<noteq> 0 \<and> hash (bs ! p) = hash (bs ! q) \<and>
        key (bs ! p) = key (bs ! q)"
    then have "Suc p = Suc q"
      by (intro u [rule_format, of "Suc p" "Suc q"]) simp_all
    then show "p = q" by simp
  qed
  show "\<forall>c \<in> set bs. dib c \<noteq> 0 \<longrightarrow> \<not> (hash c = hash b \<and> key c = key b)" if "dib b \<noteq> 0"
  proof (intro ballI impI notI)
    fix c
    assume "c \<in> set bs" and c: "dib c \<noteq> 0" "hash c = hash b \<and> key c = key b"
    then obtain p where p: "p < length bs" "bs ! p = c"
      by (auto simp add: in_set_conv_nth)
    with c that have "Suc p = 0"
      by (intro u [rule_format, of "Suc p" 0]) simp_all
    then show False by simp
  qed
qed


lemma resize_fill_content:
  fixes nmap :: "('k::zero, 'v::zero) mapShard"
  assumes "robin_hood nmap" and "unique bs"
    and "\<forall>b \<in> set bs. dib b \<noteq> 0 \<longrightarrow> content nmap (hash b, key b) = None"
    and "occupied nmap + length (filter (\<lambda>b. dib b \<noteq> 0) bs) \<le> length (buckets nmap)"
    and "length (buckets nmap) \<le> 32768 \<or>
         occupied nmap + length (filter (\<lambda>b. dib b \<noteq> 0) bs) + 1 \<le> length (buckets nmap)"
  shows "\<exists>m'. resize_fill bs nmap = Some (Inr m') \<and> robin_hood m' \<and> framed nmap m' \<and>
           occupied m' = occupied nmap + length (filter (\<lambda>b. dib b \<noteq> 0) bs) \<and>
           entries (buckets m') = entries (buckets nmap) \<union> entries bs"
  using assms
proof (induction bs arbitrary: nmap)
  case Nil
  then show ?case by simp
next
  case (Cons b bs)
  note ub = unique_Cons [OF Cons.prems(2)]
  show ?case
  proof (cases "dib b = 0")
    case True
    have "\<exists>m'. resize_fill bs nmap = Some (Inr m') \<and> robin_hood m' \<and> framed nmap m' \<and>
           occupied m' = occupied nmap + length (filter (\<lambda>b. dib b \<noteq> 0) bs) \<and>
           entries (buckets m') = entries (buckets nmap) \<union> entries bs"
      using Cons.prems ub(1) True by (intro Cons.IH) simp_all
    with True show ?thesis
      by (simp add: entries_Cons)
  next
    case False
    then have pos: "0 < dib b"
      by (simp add: word_greater_zero_iff)
    have ab: "content nmap (hash b, key b) = None"
      using Cons.prems(3) False by simp
    have "\<exists>m1. set_shard nmap (hash b) (key b) (val b) = Some (Inr ((0, False), m1)) \<and>
        inserted nmap (hash b, key b, val b) m1"
      using Cons.prems(1) hash_less ab Cons.prems(4,5) False
      by (intro set_shard_absent) auto
    then obtain m1 where m1: "set_shard nmap (hash b) (key b) (val b) = Some (Inr ((0, False), m1))"
      and ins: "inserted nmap (hash b, key b, val b) m1"
      by blast
    have rh1: "robin_hood m1"
      using Cons.prems(1) ins by (rule inserted_robin_hood)
    have un: "unique (buckets nmap)"
      using Cons.prems(1) by (simp add: robin_hood_def)
    have c1: "content m1 = (content nmap)((hash b, key b) \<mapsto> val b)"
      using un ins by (rule inserted_content)
    have o1: "occupied m1 = occupied nmap + 1" "length (buckets m1) = length (buckets nmap)"
      and e1: "entries (buckets m1) = insert (hash b, key b, val b) (entries (buckets nmap))"
      and f1: "framed nmap m1"
      using ins by (simp_all add: inserted_def framed_def)
    have "\<exists>m'. resize_fill bs m1 = Some (Inr m') \<and> robin_hood m' \<and> framed m1 m' \<and>
           occupied m' = occupied m1 + length (filter (\<lambda>b. dib b \<noteq> 0) bs) \<and>
           entries (buckets m') = entries (buckets m1) \<union> entries bs"
    proof (rule Cons.IH)
      show "robin_hood m1" "unique bs"
        by (fact rh1 ub(1))+
      show "\<forall>c \<in> set bs. dib c \<noteq> 0 \<longrightarrow> content m1 (hash c, key c) = None"
        using Cons.prems(3) ub(2) [OF False] by (auto simp add: c1)
      show "occupied m1 + length (filter (\<lambda>b. dib b \<noteq> 0) bs) \<le> length (buckets m1)"
        using Cons.prems(4) False by (simp add: o1)
      show "length (buckets m1) \<le> 32768 \<or>
          occupied m1 + length (filter (\<lambda>b. dib b \<noteq> 0) bs) + 1 \<le> length (buckets m1)"
        using Cons.prems(5) False by (simp add: o1)
    qed
    then obtain m' where m': "resize_fill bs m1 = Some (Inr m')" "robin_hood m'" "framed m1 m'"
      "occupied m' = occupied m1 + length (filter (\<lambda>b. dib b \<noteq> 0) bs)"
      "entries (buckets m') = entries (buckets m1) \<union> entries bs"
      by blast
    have "resize_fill (b # bs) nmap = Some (Inr m')"
      using pos m1 m'(1) by (simp add: bindR_def)
    moreover have "framed nmap m'"
      using f1 m'(3) by (rule framed_trans)
    moreover have "occupied m' = occupied nmap + length (filter (\<lambda>b. dib b \<noteq> 0) (b # bs))"
      using m'(4) False by (simp add: o1)
    moreover have "entries (buckets m') = entries (buckets nmap) \<union> entries (b # bs)"
      using m'(5) False by (simp add: e1 entries_Cons)
    ultimately show ?thesis
      using m'(2) by blast
  qed
qed

lemma newShard_small:
  assumes "c \<le> 65536"
  obtains j where "3 \<le> j" and "j \<le> 16"
    and "(newShard c :: ('k::zero, 'v::zero) mapShard) =
      \<lparr>scap = c, slength = 0, growAt = (2 ^ j * 17) div 20,
       shrinkAt = (2 ^ j * 3) div 20, smask = mask j, buckets = replicate (2 ^ j) emptyEntry\<rparr>"
proof -
  from assms have "c \<le> 2 ^ 48" by simp
  then show thesis
  proof (rule newShard_eq [where ?'a = 'k and ?'b = 'v])
    fix j
    assume j: "3 \<le> j" "3 < j \<Longrightarrow> 2 ^ (j - 1) < c"
      and eq: "(newShard c :: ('k, 'v) mapShard) =
        \<lparr>scap = c, slength = 0, growAt = (2 ^ j * 17) div 20,
         shrinkAt = (2 ^ j * 3) div 20, smask = mask j, buckets = replicate (2 ^ j) emptyEntry\<rparr>"
    have "j \<le> 16"
    proof (rule ccontr)
      assume "\<not> j \<le> 16"
      then have "16 \<le> j - 1" "3 < j" by simp_all
      then have "(2 :: int) ^ 16 \<le> 2 ^ (j - 1)"
        by (intro power_increasing) simp_all
      with j(2) [OF \<open>3 < j\<close>] assms show False by simp
    qed
    with j(1) show thesis using eq by (rule that)
  qed
qed

lemma robin_hood_newShard:
  assumes "c \<le> 65536"
  shows "robin_hood (newShard c :: ('k::zero, 'v::zero) mapShard)"
    and "content (newShard c :: ('k::zero, 'v::zero) mapShard) x = None"
    and "entries (buckets (newShard c :: ('k::zero, 'v::zero) mapShard)) = {}"
proof -
  from assms have c48: "c \<le> 2 ^ 48" by simp
  obtain j where j: "3 \<le> j" "j \<le> 16"
    and eq: "(newShard c :: ('k, 'v) mapShard) = \<lparr>scap = c, slength = 0, growAt = (2 ^ j * 17) div 20,
       shrinkAt = (2 ^ j * 3) div 20, smask = mask j, buckets = replicate (2 ^ j) emptyEntry\<rparr>"
    using assms by (rule newShard_small)
  have le: "(2 :: nat) ^ j \<le> 65536"
    using power_increasing [of j 16 "2 :: nat"] j(2) by simp
  have ge: "8 \<le> (2 :: nat) ^ j"
    using power_increasing [of 3 j "2 :: nat"] j(1) by simp
  have sh: "shaped (newShard c :: ('k, 'v) mapShard)"
    using c48 by (rule shaped_newShard)
  have bs: "buckets (newShard c :: ('k, 'v) mapShard) = replicate (2 ^ j) emptyEntry"
    and fs: "growAt (newShard c :: ('k, 'v) mapShard) = (2 ^ j * 17) div 20"
      "shrinkAt (newShard c :: ('k, 'v) mapShard) = (2 ^ j * 3) div 20"
    by (simp_all add: eq)
  have "placed (replicate (2 ^ j) (emptyEntry :: ('k, 'v) entry))"
    by (simp add: placed_def)
  moreover have "ordered (replicate (2 ^ j) (emptyEntry :: ('k, 'v) entry))"
    by (simp add: ordered_def)
  moreover have "unique (replicate (2 ^ j) (emptyEntry :: ('k, 'v) entry))"
    by (simp add: unique_def)
  moreover have "anchored (replicate (2 ^ j) (emptyEntry :: ('k, 'v) entry))"
    unfolding anchored_def by (rule exI [of _ 0]) simp
  ultimately show "robin_hood (newShard c :: ('k, 'v) mapShard)"
    using sh le ge unfolding robin_hood_def
    by (simp add: bs fs occupied_newShard)
  show "content (newShard c :: ('k, 'v) mapShard) x = None"
    by (cases x) (simp add: bs content_None_iff holds_def)
  show "entries (buckets (newShard c :: ('k, 'v) mapShard)) = {}"
    by (simp add: bs entries_def)
qed

lemma resize_content:
  fixes m :: "('k::zero, 'v::zero) mapShard"
  assumes "robin_hood m" and "newCap \<le> 65536"
    and "int (occupied m) \<le> newShard_sz 8 newCap"
    and "newShard_sz 8 newCap \<le> 32768 \<or> int (occupied m) + 1 \<le> newShard_sz 8 newCap"
  shows "\<exists>m'. resize m newCap = Some (Inr m') \<and> robin_hood m' \<and> content m' = content m \<and>
           slength m' = slength m \<and> scap m' = scap m \<and>
           int (length (buckets m')) = newShard_sz 8 newCap"
proof -
  let ?nmap = "newShard newCap :: ('k, 'v) mapShard"
  have nm: "robin_hood ?nmap" "\<And>x. content ?nmap x = None" "entries (buckets ?nmap) = {}"
    using assms(2) by (rule robin_hood_newShard)+
  have ln: "int (length (buckets ?nmap)) = newShard_sz 8 newCap"
    by (rule length_buckets_newShard)
  have un: "unique (buckets m)" and sl: "slength m = int (occupied m)"
    using assms(1) by (simp_all add: robin_hood_def)
  have on: "occupied ?nmap = 0"
    by (rule occupied_newShard)
  have om: "length (filter (\<lambda>b. dib b \<noteq> 0) (buckets m)) = occupied m"
    by (simp add: occupied_def)
  have "\<exists>m'. resize_fill (buckets m) ?nmap = Some (Inr m') \<and> robin_hood m' \<and> framed ?nmap m' \<and>
         occupied m' = occupied ?nmap + length (filter (\<lambda>b. dib b \<noteq> 0) (buckets m)) \<and>
         entries (buckets m') = entries (buckets ?nmap) \<union> entries (buckets m)"
  proof (rule resize_fill_content)
    show "robin_hood ?nmap" "unique (buckets m)"
      by (fact nm(1) un)+
    show "\<forall>b \<in> set (buckets m). dib b \<noteq> 0 \<longrightarrow> content ?nmap (hash b, key b) = None"
      by (simp add: nm(2))
    show "occupied ?nmap + length (filter (\<lambda>b. dib b \<noteq> 0) (buckets m)) \<le> length (buckets ?nmap)"
      using assms(3) ln by (simp add: on om)
    show "length (buckets ?nmap) \<le> 32768 \<or>
        occupied ?nmap + length (filter (\<lambda>b. dib b \<noteq> 0) (buckets m)) + 1 \<le> length (buckets ?nmap)"
      using assms(4) ln by (auto simp add: on om)
  qed
  then obtain m' where m': "resize_fill (buckets m) ?nmap = Some (Inr m')" "robin_hood m'"
    "framed ?nmap m'" "occupied m' = occupied m" "entries (buckets m') = entries (buckets m)"
    by (auto simp add: on om nm(3))
  have "resize m newCap = Some (Inr (m'\<lparr>scap := scap m\<rparr>))"
    using m'(1) by (simp add: resize_def bindR_def)
  moreover have "content m' = content m"
    using un _ m'(5) by (rule content_same) (use m'(2) in \<open>simp add: robin_hood_def\<close>)
  then have "content (m'\<lparr>scap := scap m\<rparr>) = content m"
    by simp
  moreover have "slength (m'\<lparr>scap := scap m\<rparr>) = slength m"
    using m'(2,4) sl by (simp add: robin_hood_def)
  moreover have "int (length (buckets (m'\<lparr>scap := scap m\<rparr>))) = newShard_sz 8 newCap"
    using m'(3) ln by (simp add: framed_def)
  ultimately show ?thesis
    using m'(2) by simp
qed


section \<open>SetWithHash\<close>

lemma robin_hood_pow2:
  assumes "robin_hood m"
  obtains j where "3 \<le> j" and "j \<le> 16" and "length (buckets m) = 2 ^ j"
proof -
  from assms obtain j where j: "length (buckets m) = 2 ^ j"
    and b: "8 \<le> length (buckets m)" "length (buckets m) \<le> 65536"
    by (auto simp add: robin_hood_def shaped_def)
  have "3 \<le> j"
  proof (rule ccontr)
    assume "\<not> 3 \<le> j"
    then have "j \<le> 2" by simp
    then have "(2 :: nat) ^ j \<le> 2 ^ 2" by (intro power_increasing) simp_all
    with b(1) j show False by simp
  qed
  moreover have "j \<le> 16"
  proof (rule ccontr)
    assume "\<not> j \<le> 16"
    then have "17 \<le> j" by simp
    then have "(2 :: nat) ^ 17 \<le> 2 ^ j" by (intro power_increasing) simp_all
    with b(2) j show False by simp
  qed
  ultimately show thesis using j by (rule that)
qed

lemma newShard_sz_self:
  assumes "3 \<le> j"
  shows "newShard_sz 8 (2 ^ j) = 2 ^ j"
proof -
  obtain j' where j': "3 \<le> j'" "newShard_sz 8 (2 ^ j) = 2 ^ j'" "(2 :: int) ^ j \<le> 2 ^ j'"
    "3 < j' \<Longrightarrow> (2 :: int) ^ (j' - 1) < 2 ^ j"
    by (rule newShard_sz_8 [of "2 ^ j"]) blast
  from j'(3) have le: "j \<le> j'" by simp
  have "j' \<le> j"
  proof (rule ccontr)
    assume "\<not> j' \<le> j"
    with assms have "3 < j'" "j \<le> j' - 1" by simp_all
    from j'(4) [OF this(1)] have "j' - 1 < j" by simp
    with \<open>j \<le> j' - 1\<close> show False by simp
  qed
  with le j'(2) show ?thesis by simp
qed

lemma occupied_le: "occupied m \<le> length (buckets m)"
  by (simp add: occupied_def)

lemma set_shard_content:
  fixes m :: "('k::zero, 'v::zero) mapShard"
  assumes "robin_hood m" and "h < 2 ^ 48"
    and "content m (h, k) = None \<longrightarrow> occupied m + 2 \<le> length (buckets m)"
  shows "\<exists>m'. set_shard m h k v =
             Some (Inr ((case content m (h, k) of None \<Rightarrow> (0, False) | Some u \<Rightarrow> (u, True)), m')) \<and>
           robin_hood m' \<and> content m' = (content m)((h, k) \<mapsto> v) \<and>
           slength m' = slength m + (if content m (h, k) = None then 1 else 0) \<and>
           scap m' = scap m \<and> length (buckets m') = length (buckets m)"
proof (cases "content m (h, k)")
  case None
  with assms(3) have room: "occupied m + 2 \<le> length (buckets m)" by simp
  then have "occupied m < length (buckets m)" by simp
  with assms(1,2) None room obtain m' where
    m': "set_shard m h k v = Some (Inr ((0, False), m'))" "inserted m (h, k, v) m'"
    using set_shard_absent [of m h k v] by blast
  have "unique (buckets m)"
    using assms(1) by (simp add: robin_hood_def)
  then have "content m' = (content m)((h, k) \<mapsto> v)"
    using m'(2) by (rule inserted_content)
  moreover have "robin_hood m'"
    using assms(1) m'(2) by (rule inserted_robin_hood)
  ultimately show ?thesis
    using None m' by (simp add: inserted_def framed_def)
next
  case (Some u)
  then obtain p where p: "holds (buckets m) p h k" "val (buckets m ! p) = u"
    by (rule content_Some_holds)
  have "unique (buckets m)"
    using assms(1) by (simp add: robin_hood_def)
  then have "content (revalued m p v) = (content m)((h, k) \<mapsto> v)"
    using p(1) by (rule revalued_content)
  moreover have "set_shard m h k v = Some (Inr ((u, True), revalued m p v))"
    using set_shard_present [OF assms(1,2) p(1), of v] p(2) by simp
  ultimately show ?thesis
    using Some assms(1) by (simp add: robin_hood_revalued)
qed

lemma SetWithHash_content:
  fixes m :: "('k::zero, 'v::zero) mapShard"
  assumes "robin_hood m" and "h < 2 ^ 48"
    and "growAt m \<le> slength m \<longrightarrow> length (buckets m) \<le> 32768"
  shows "\<exists>m'. SetWithHash m h k v =
             Some (Inr ((case content m (h, k) of None \<Rightarrow> (0, False) | Some u \<Rightarrow> (u, True)), m')) \<and>
           robin_hood m' \<and> content m' = (content m)((h, k) \<mapsto> v) \<and>
           slength m' = slength m + (if content m (h, k) = None then 1 else 0) \<and>
           scap m' = scap m"
proof -
  let ?n = "length (buckets m)"
  obtain j where j: "3 \<le> j" "j \<le> 16" "?n = 2 ^ j"
    using assms(1) by (rule robin_hood_pow2)
  have rh: "8 \<le> ?n" "growAt m = int ?n * 17 div 20" "slength m = int (occupied m)"
    using assms(1) by (simp_all add: robin_hood_def)
  have "\<exists>m2. (if growAt m \<le> slength m then resize m (int ?n * 2) else Some (Inr m)) = Some (Inr m2) \<and>
      robin_hood m2 \<and> content m2 = content m \<and> slength m2 = slength m \<and> scap m2 = scap m \<and>
      occupied m2 + 2 \<le> length (buckets m2)"
  proof (cases "growAt m \<le> slength m")
    case True
    with assms(3) have small: "?n \<le> 32768" by simp
    have sz: "newShard_sz 8 (int ?n * 2) = int ?n * 2"
      using newShard_sz_self [of "Suc j"] j(1) by (simp add: j(3) mult.commute)
    have "\<exists>m'. resize m (int ?n * 2) = Some (Inr m') \<and> robin_hood m' \<and> content m' = content m \<and>
        slength m' = slength m \<and> scap m' = scap m \<and>
        int (length (buckets m')) = newShard_sz 8 (int ?n * 2)"
    proof (rule resize_content [OF assms(1)])
      show "int ?n * 2 \<le> 65536"
        using small by simp
      have "int (occupied m) + 1 \<le> int ?n * 2"
        using occupied_le [of m] rh(1) by linarith
      then show "int (occupied m) \<le> newShard_sz 8 (int ?n * 2)"
        and "newShard_sz 8 (int ?n * 2) \<le> 32768 \<or> int (occupied m) + 1 \<le> newShard_sz 8 (int ?n * 2)"
        unfolding sz by simp_all
    qed
    then obtain m2 where m2: "resize m (int ?n * 2) = Some (Inr m2)" "robin_hood m2"
      "content m2 = content m" "slength m2 = slength m" "scap m2 = scap m"
      "int (length (buckets m2)) = int ?n * 2"
      unfolding sz by blast
    have "int (occupied m2) = int (occupied m)"
      using m2(2,4) rh(3) by (simp add: robin_hood_def)
    then have "occupied m2 + 2 \<le> length (buckets m2)"
      using m2(6) occupied_le [of m] rh(1) by linarith
    with True m2 show ?thesis by simp
  next
    case False
    then have "int (occupied m) < int ?n * 17 div 20"
      using rh(2,3) by simp
    then have "occupied m + 2 \<le> ?n"
      using rh(1) by linarith
    with False assms(1) show ?thesis by simp
  qed
  then obtain m2 where m2: "(if growAt m \<le> slength m then resize m (int ?n * 2) else Some (Inr m)) =
      Some (Inr m2)" "robin_hood m2" "content m2 = content m" "slength m2 = slength m"
    "scap m2 = scap m" "occupied m2 + 2 \<le> length (buckets m2)"
    by blast
  have "\<exists>m'. set_shard m2 h k v =
             Some (Inr ((case content m2 (h, k) of None \<Rightarrow> (0, False) | Some u \<Rightarrow> (u, True)), m')) \<and>
           robin_hood m' \<and> content m' = (content m2)((h, k) \<mapsto> v) \<and>
           slength m' = slength m2 + (if content m2 (h, k) = None then 1 else 0) \<and>
           scap m' = scap m2 \<and> length (buckets m') = length (buckets m2)"
    using m2(2) assms(2) m2(6) by (intro set_shard_content) simp_all
  then obtain m' where m': "set_shard m2 h k v =
             Some (Inr ((case content m (h, k) of None \<Rightarrow> (0, False) | Some u \<Rightarrow> (u, True)), m'))"
    "robin_hood m'" "content m' = (content m)((h, k) \<mapsto> v)"
    "slength m' = slength m + (if content m (h, k) = None then 1 else 0)" "scap m' = scap m"
    unfolding m2(3,4,5) by blast
  have "buckets m \<noteq> []"
    using rh(1) by auto
  then have "SetWithHash m h k v = set_shard m2 h k v"
    using m2(1) by (simp add: SetWithHash_def bindR_def)
  with m' show ?thesis by simp
qed

section \<open>The backward shift\<close>

lemma mod_Suc_shift:
  assumes "H < n"
  shows "(Suc q mod n + n - H) mod n = Suc ((q + n - H) mod n) mod n"
proof -
  have "(Suc q mod n + n - H) mod n = (Suc q mod n + (n - H)) mod n"
    using assms by simp
  also have "\<dots> = (Suc q + (n - H)) mod n"
    by (simp add: mod_add_left_eq)
  also have "\<dots> = Suc (q + n - H) mod n"
    using assms by simp
  also have "\<dots> = Suc ((q + n - H) mod n) mod n"
    by (simp add: mod_Suc_eq)
  finally show ?thesis .
qed

lemma Suc_Suc_mod_neq:
  assumes "3 \<le> n" and "g < n"
  shows "Suc (Suc g mod n) mod n \<noteq> g"
proof
  assume "Suc (Suc g mod n) mod n = g"
  then have "(g + 2) mod n = (g + 0) mod n"
    using assms(2) by (simp add: mod_Suc_eq)
  then have "(2 :: nat) = 0"
    using assms(1) by (intro mod_add_inj [of g 2 n 0]) simp_all
  then show False by simp
qed

lemma length_shifted [simp]: "length (shifted L g) = length L"
  by (simp add: shifted_def)

lemma nth_shifted:
  assumes "g < length L" and "2 \<le> length L" and "q < length L"
  shows "shifted L g ! q =
    (if q = g then setDIB (L ! (Suc g mod length L)) (dib (L ! (Suc g mod length L)) - 1)
     else if q = Suc g mod length L then emptyEntry else L ! q)"
proof -
  have "Suc g mod length L \<noteq> g"
    using assms(2,1) by (rule Suc_mod_neq)
  moreover have "Suc g mod length L < length L"
    using assms(1) by (rule mod_lt)
  ultimately show ?thesis
    using assms(1,3) by (simp add: shifted_def nth_list_update)
qed

lemma gapped_done:
  assumes "gapped L g" and "dibn (L ! (Suc g mod length L)) \<le> 1"
  shows "ordered L" and "anchored L"
proof -
  have g: "g < length L" "dibn (L ! g) = 0"
    using assms(1) by (simp_all add: gapped_def dib_eq_0_iff)
  show "ordered L"
    unfolding ordered_def
  proof (intro allI impI)
    fix p
    assume "p < length L"
    then show "dibn (L ! (Suc p mod length L)) \<le> dibn (L ! p) + 1"
      using assms by (cases "p = g") (simp_all add: gapped_def)
  qed
  show "anchored L"
    unfolding anchored_def using g by (intro exI [of _ g]) simp
qed


lemma gapped_shift:
  fixes L :: "('k::zero, 'v::zero) entry list"
  assumes "gapped L g" and "3 \<le> length L" and "2 \<le> dibn (L ! (Suc g mod length L))"
  shows "gapped (shifted L g) (Suc g mod length L)"
    and "entries (shifted L g) = entries L"
    and "length (filter (\<lambda>b. dib b \<noteq> 0) (shifted L g)) = length (filter (\<lambda>b. dib b \<noteq> 0) L)"
proof -
  let ?n = "length L" and ?g' = "Suc g mod length L"
  let ?x = "L ! ?g'"
  let ?s = "setDIB ?x (dib ?x - 1)"
  let ?L2 = "L[?g' := emptyEntry]"
  let ?g'' = "Suc ?g' mod ?n"
  have gp: "g < ?n" "dib (L ! g) = 0" "placed L" "unique L"
    and c: "\<And>p. p < ?n \<Longrightarrow> p \<noteq> g \<Longrightarrow> dibn (L ! (Suc p mod ?n)) \<le> dibn (L ! p) + 1"
    and d: "\<And>p. p < ?n \<Longrightarrow> Suc p mod ?n = g \<Longrightarrow> dibn ?x \<le> dibn (L ! p) + 2"
    using assms(1) by (simp_all add: gapped_def)
  have n2: "2 \<le> ?n"
    using assms(2) by simp
  have g': "?g' < ?n"
    using gp(1) by (rule mod_lt)
  have ne: "?g' \<noteq> g"
    using n2 gp(1) by (rule Suc_mod_neq)
  have g'': "?g'' < ?n"
    using gp(1) by (rule mod_lt)
  have ne': "?g'' \<noteq> ?g'"
    using n2 g' by (rule Suc_mod_neq)
  have ne'': "?g'' \<noteq> g"
    using assms(2) gp(1) by (rule Suc_Suc_mod_neq)
  have xnz: "dib ?x \<noteq> 0" "dibn ?x \<noteq> 0"
    using assms(3) by (simp_all add: dib_eq_0_iff)
  have ds: "dibn ?s = dibn ?x - 1"
    using xnz(2) by (rule dibn_setDIB_pred)
  then have snz: "dib ?s \<noteq> 0"
    using assms(3) by (simp add: dib_eq_0_iff del: dib_setDIB)
  have sh: "shifted L g = ?L2[g := ?s]"
    by (simp add: shifted_def)
  have nth: "shifted L g ! q = (if q = g then ?s else if q = ?g' then emptyEntry else L ! q)"
    if "q < ?n" for q
    using gp(1) n2 that by (rule nth_shifted)
  have H: "home ?n ?x < ?n"
    unfolding home_def using gp(1) by (rule mod_lt)
  have px: "dibn ?x = (?g' + ?n - home ?n ?x) mod ?n + 1"
    using gp(3) g' xnz(1) by (simp add: placed_def)
  have ps: "dibn ?s = (g + ?n - home ?n ?s) mod ?n + 1"
  proof -
    let ?r = "(g + ?n - home ?n ?x) mod ?n"
    have r: "?r < ?n"
      using gp(1) by (rule mod_lt)
    have e: "(?g' + ?n - home ?n ?x) mod ?n = Suc ?r mod ?n"
      using H by (rule mod_Suc_shift)
    have "Suc ?r \<noteq> ?n"
    proof
      assume "Suc ?r = ?n"
      then have "Suc ?r mod ?n = 0" by simp
      with px e assms(3) show False by simp
    qed
    with r have "Suc ?r mod ?n = Suc ?r" by simp
    with px e ds show ?thesis by simp
  qed
  have pl2: "placed ?L2"
    using gp(3) g' by (rule placed_update) simp
  have un2: "unique ?L2"
    using gp(4) g' by (rule unique_update) simp
  have pl: "placed (shifted L g)"
    unfolding sh using pl2 by (rule placed_update) (simp_all add: gp(1) ps)
  have un: "unique (shifted L g)"
    unfolding sh using un2
  proof (rule unique_update)
    show "g < length ?L2"
      using gp(1) by simp
    show "\<forall>p<length ?L2. p \<noteq> g \<longrightarrow>
        \<not> (dib (?L2 ! p) \<noteq> 0 \<and> hash (?L2 ! p) = hash ?s \<and> key (?L2 ! p) = key ?s)"
    proof (intro allI impI notI)
      fix p
      assume p: "p < length ?L2" "p \<noteq> g"
        and h: "dib (?L2 ! p) \<noteq> 0 \<and> hash (?L2 ! p) = hash ?s \<and> key (?L2 ! p) = key ?s"
      have "p \<noteq> ?g'"
        using h g' by auto
      with h have "dib (L ! p) \<noteq> 0 \<and> dib ?x \<noteq> 0 \<and> hash (L ! p) = hash ?x \<and> key (L ! p) = key ?x"
        using xnz(1) by simp
      with gp(4) p(1) g' have "p = ?g'"
        unfolding unique_def by simp
      with \<open>p \<noteq> ?g'\<close> show False by simp
    qed
  qed
  have c': "dibn (shifted L g ! (Suc p mod ?n)) \<le> dibn (shifted L g ! p) + 1"
    if p: "p < ?n" "p \<noteq> ?g'" for p
  proof (cases "p = g")
    case True
    with g' gp(1) ne show ?thesis
      by (simp add: nth)
  next
    case False
    let ?q = "Suc p mod ?n"
    have q: "?q < ?n"
      using p(1) by (rule mod_lt)
    have "?q \<noteq> ?g'"
    proof
      assume "?q = ?g'"
      then have "p = g" using p(1) gp(1) by (rule Suc_mod_inj)
      with False show False by simp
    qed
    show ?thesis
    proof (cases "?q = g")
      case True
      from d [OF p(1) True] ds have "dibn ?s \<le> dibn (L ! p) + 1"
        by simp
      with True False p gp(1) show ?thesis
        by (simp add: nth)
    next
      case qg: False
      with c [OF p(1) False] False p q \<open>?q \<noteq> ?g'\<close> show ?thesis
        by (simp add: nth)
    qed
  qed
  have d': "dibn (shifted L g ! ?g'') \<le> dibn (shifted L g ! p) + 2"
    if p: "p < ?n" "Suc p mod ?n = ?g'" for p
  proof -
    have "p = g"
      using p(2,1) gp(1) by (rule Suc_mod_inj)
    moreover have "dibn (L ! ?g'') \<le> dibn ?x + 1"
      using g' ne by (rule c)
    ultimately show ?thesis
      using gp(1) g'' ne' ne'' ds assms(3) by (simp add: nth)
  qed
  have "dib (shifted L g ! ?g') = 0"
    using g' ne by (simp add: nth)
  with g' pl un c' d' show "gapped (shifted L g) ?g'"
    by (simp add: gapped_def)
  have e2: "entries ?L2 = others L ?g'"
    using entries_update [OF g', of emptyEntry] by simp
  have "entries ?L2 = others ?L2 g"
    using entries_split [of g ?L2] gp(1,2) ne by simp
  then have "entries (shifted L g) = others L ?g' \<union> {(hash ?x, key ?x, val ?x)}"
    unfolding sh using entries_update [of g ?L2 ?s] gp(1) snz e2 by simp
  also have "\<dots> = entries L"
    using entries_split [OF g'] xnz(1) by simp
  finally show "entries (shifted L g) = entries L" .
  have "length (filter (\<lambda>b. dib b \<noteq> 0) ?L2) + 1 = length (filter (\<lambda>b. dib b \<noteq> 0) L)"
    using length_filter_update [OF g', of "\<lambda>b. dib b \<noteq> 0" emptyEntry] xnz(1) by simp
  moreover have "length (filter (\<lambda>b. dib b \<noteq> 0) (shifted L g)) =
      length (filter (\<lambda>b. dib b \<noteq> 0) ?L2) + 1"
    unfolding sh using length_filter_update [of g ?L2 "\<lambda>b. dib b \<noteq> 0" ?s] gp(1,2) ne snz by simp
  ultimately show "length (filter (\<lambda>b. dib b \<noteq> 0) (shifted L g)) =
      length (filter (\<lambda>b. dib b \<noteq> 0) L)"
    by simp
qed

lemma stops_shift:
  fixes L :: "('k::zero, 'v::zero) entry list"
  assumes "stops L g (Suc d)" and "g < length L" and "3 \<le> length L"
    and "2 \<le> dibn (L ! (Suc g mod length L))"
  shows "stops (shifted L g) (Suc g mod length L) d"
proof -
  let ?n = "length L" and ?g' = "Suc g mod length L"
  let ?z = "(g + Suc d) mod ?n"
  have st: "Suc d \<le> ?n" "Suc d < ?n \<Longrightarrow> dibn (L ! ?z) \<le> 1" "Suc d = ?n \<Longrightarrow> dibn (L ! ?g') \<le> 2"
    using assms(1) by (simp_all add: stops_def)
  have n2: "2 \<le> ?n"
    using assms(3) by simp
  have d1: "1 \<le> d"
  proof (rule ccontr)
    assume "\<not> 1 \<le> d"
    then have "d = 0" by simp
    with st(2) assms(3,4) show False by simp
  qed
  have z: "?z < ?n"
    using assms(2) by (rule mod_lt)
  have zz: "(?g' + d) mod ?n = ?z"
    by (simp add: mod_add_left_eq)
  have xnz: "dibn (L ! ?g') \<noteq> 0"
    using assms(4) by simp
  have "dibn (shifted L g ! ?z) \<le> 1"
  proof (cases "Suc d = ?n")
    case True
    then have "?z = g"
      using assms(2) by simp
    with st(3) [OF True] assms(2) n2 xnz show ?thesis
      by (simp add: nth_shifted dibn_setDIB_pred)
  next
    case False
    with st(1) have lt: "Suc d < ?n" by simp
    have "?z \<noteq> g"
    proof
      assume "?z = g"
      then have "(g + Suc d) mod ?n = (g + 0) mod ?n"
        using assms(2) by simp
      then have "Suc d = 0"
        using lt n2 by (intro mod_add_inj [of g "Suc d" ?n 0]) auto
      then show False by simp
    qed
    moreover have "?z \<noteq> ?g'"
    proof
      assume "?z = ?g'"
      then have "(g + Suc d) mod ?n = (g + 1) mod ?n"
        by simp
      then have "Suc d = 1"
        using lt n2 by (intro mod_add_inj [of g "Suc d" ?n 1]) simp_all
      with d1 show False by simp
    qed
    ultimately show ?thesis
      using st(2) [OF lt] assms(2) n2 z by (simp add: nth_shifted)
  qed
  with st(1) d1 show ?thesis
    by (simp add: stops_def zz)
qed


lemma remove_loop_shift:
  fixes m :: "('k::zero, 'v::zero) mapShard"
  assumes "shaped m" and "3 \<le> length (buckets m)"
    and "gapped ((buckets m)[unat i := emptyEntry]) (unat i)"
    and "stops ((buckets m)[unat i := emptyEntry]) (unat i) d"
  shows "\<exists>m'. remove_loop m i = Some (Inr m') \<and> framed m m' \<and> slength m' = slength m \<and>
           placed (buckets m') \<and> ordered (buckets m') \<and> unique (buckets m') \<and>
           anchored (buckets m') \<and>
           entries (buckets m') = entries ((buckets m)[unat i := emptyEntry]) \<and>
           occupied m' = length (filter (\<lambda>b. dib b \<noteq> 0) ((buckets m)[unat i := emptyEntry]))"
  using assms
proof (induction d arbitrary: m i)
  case 0
  then show ?case by (simp add: stops_def)
next
  case (Suc d)
  let ?T = "buckets m" and ?n = "length (buckets m)" and ?g = "unat i"
  let ?L = "?T[?g := emptyEntry]"
  let ?i' = "(i + 1) AND smask m"
  let ?g' = "Suc ?g mod ?n"
  note sh = Suc.prems(1) and n3 = Suc.prems(2) and gp = Suc.prems(3) and st = Suc.prems(4)
  have g: "?g < ?n"
    using gp by (simp add: gapped_def)
  have i': "unat ?i' = ?g'"
    using sh g by (rule unat_next)
  have g': "?g' < ?n"
    using g by (rule mod_lt)
  have ne: "?g' \<noteq> ?g"
    using n3 g by (intro Suc_mod_neq) simp_all
  have x: "?L ! ?g' = ?T ! ?g'"
    using ne by simp
  show ?case
  proof (cases "dib (?T ! ?g') \<le> 1")
    case True
    then have le: "dibn (?L ! (Suc ?g mod length ?L)) \<le> 1"
      by (simp add: x dib_le_1_iff)
    have run: "remove_loop m i = Some (Inr (m\<lparr>buckets := ?L\<rparr>))"
      using True g g' by (subst remove_loop.simps) (simp add: Let_def i')
    have "ordered ?L" "anchored ?L"
      using gp le by (rule gapped_done)+
    with gp have "framed m (m\<lparr>buckets := ?L\<rparr>) \<and> slength (m\<lparr>buckets := ?L\<rparr>) = slength m \<and>
        placed ?L \<and> ordered ?L \<and> unique ?L \<and> anchored ?L \<and>
        occupied (m\<lparr>buckets := ?L\<rparr>) = length (filter (\<lambda>b. dib b \<noteq> 0) ?L)"
      by (simp add: gapped_def framed_def occupied_def)
    with run show ?thesis by simp
  next
    case False
    then have ge: "2 \<le> dibn (?L ! (Suc ?g mod length ?L))"
      by (simp add: x dib_le_1_iff)
    let ?s = "setDIB (?T ! ?g') (dib (?T ! ?g') - 1)"
    let ?m1 = "m\<lparr>buckets := ?T[?g := ?s]\<rparr>"
    have run: "remove_loop m i = remove_loop ?m1 ?i'"
      using False g g' by (subst remove_loop.simps) (simp add: Let_def i')
    have "shifted ?L ?g = ?T[?g := emptyEntry, ?g' := emptyEntry, ?g := ?s]"
      by (simp add: shifted_def x)
    also have "\<dots> = ?T[?g := ?s, ?g' := emptyEntry]"
      using ne by (simp add: list_update_swap [of ?g' ?g])
    finally have L1: "(buckets ?m1)[unat ?i' := emptyEntry] = shifted ?L ?g"
      by (simp add: i')
    have gs: "gapped (shifted ?L ?g) (Suc ?g mod length ?L)"
      and es: "entries (shifted ?L ?g) = entries ?L"
      and fs: "length (filter (\<lambda>b. dib b \<noteq> 0) (shifted ?L ?g)) = length (filter (\<lambda>b. dib b \<noteq> 0) ?L)"
      using gp _ ge by (rule gapped_shift; simp add: n3)+
    have ss: "stops (shifted ?L ?g) (Suc ?g mod length ?L) d"
      using st _ _ ge by (rule stops_shift) (simp_all add: g n3)
    have "\<exists>m'. remove_loop ?m1 ?i' = Some (Inr m') \<and> framed ?m1 m' \<and> slength m' = slength ?m1 \<and>
           placed (buckets m') \<and> ordered (buckets m') \<and> unique (buckets m') \<and>
           anchored (buckets m') \<and>
           entries (buckets m') = entries ((buckets ?m1)[unat ?i' := emptyEntry]) \<and>
           occupied m' = length (filter (\<lambda>b. dib b \<noteq> 0) ((buckets ?m1)[unat ?i' := emptyEntry]))"
    proof (rule Suc.IH)
      show "shaped ?m1"
        using sh by simp
      show "3 \<le> length (buckets ?m1)"
        using n3 by simp
      show "gapped ((buckets ?m1)[unat ?i' := emptyEntry]) (unat ?i')"
        unfolding L1 using gs by (simp add: i')
      show "stops ((buckets ?m1)[unat ?i' := emptyEntry]) (unat ?i') d"
        unfolding L1 using ss by (simp add: i')
    qed
    then show ?thesis
      unfolding L1 es fs run by (simp add: framed_def)
  qed
qed


section \<open>remove and DeleteWithHash\<close>

lemma newShard_sz_le:
  assumes "c \<le> 2 ^ a" and "3 \<le> a"
  shows "newShard_sz 8 c \<le> 2 ^ a" and "c \<le> newShard_sz 8 c"
proof -
  obtain j where j: "3 \<le> j" "newShard_sz 8 c = 2 ^ j" "c \<le> 2 ^ j" "3 < j \<Longrightarrow> 2 ^ (j - 1) < c"
    by (rule newShard_sz_8 [of c]) blast
  show "c \<le> newShard_sz 8 c"
    using j(2,3) by simp
  have "j \<le> a"
  proof (cases "3 < j")
    case True
    from j(4) [OF True] assms(1) have "(2 :: int) ^ (j - 1) < 2 ^ a"
      by (rule less_le_trans)
    then have "j - 1 < a" by simp
    then show ?thesis by simp
  next
    case False
    with assms(2) show ?thesis by simp
  qed
  then have "(2 :: int) ^ j \<le> 2 ^ a"
    by (intro power_increasing) simp_all
  with j(2) show "newShard_sz 8 c \<le> 2 ^ a" by simp
qed

lemma gapped_start:
  fixes T :: "('k::zero, 'v::zero) entry list"
  assumes "placed T" and "ordered T" and "unique T" and "anchored T"
    and "p < length T" and "2 \<le> length T"
  shows "gapped (T[p := emptyEntry]) p" and "\<exists>d. stops (T[p := emptyEntry]) p d"
proof -
  let ?n = "length T" and ?L = "T[p := emptyEntry]"
  let ?p' = "Suc p mod ?n"
  have p': "?p' < ?n"
    using assms(5) by (rule mod_lt)
  have ne: "?p' \<noteq> p"
    using assms(6,5) by (rule Suc_mod_neq)
  have o: "dibn (T ! (Suc q mod ?n)) \<le> dibn (T ! q) + 1" if "q < ?n" for q
    using assms(2) that by (simp add: ordered_def)
  have "placed ?L"
    using assms(1,5) by (rule placed_update) simp
  moreover have "unique ?L"
    using assms(3,5) by (rule unique_update) simp
  moreover have "dibn (?L ! (Suc q mod ?n)) \<le> dibn (?L ! q) + 1" if q: "q < ?n" "q \<noteq> p" for q
  proof (cases "Suc q mod ?n = p")
    case True
    with assms(5) show ?thesis by simp
  next
    case False
    with o [OF q(1)] q(2) show ?thesis by simp
  qed
  moreover have "dibn (?L ! ?p') \<le> dibn (?L ! q) + 2" if q: "q < ?n" "Suc q mod ?n = p" for q
  proof -
    have "q \<noteq> p"
      using q(2) assms(5,6) Suc_mod_neq [of ?n p] by auto
    moreover have "dibn (T ! ?p') \<le> dibn (T ! q) + 2"
      using o [OF q(1)] o [OF assms(5)] q(2) by simp
    ultimately show ?thesis
      using ne by simp
  qed
  ultimately show "gapped ?L p"
    using assms(5) by (simp add: gapped_def)
  from assms(4) obtain z where z: "z < ?n" "dibn (T ! z) \<le> 1"
    by (auto simp add: anchored_def)
  show "\<exists>d. stops ?L p d"
  proof (cases "z = p")
    case True
    have "dibn (T ! ?p') \<le> 2"
      using o [OF assms(5)] z(2) True by simp
    then have "stops ?L p ?n"
      using ne assms(6) by (simp add: stops_def)
    then show ?thesis ..
  next
    case False
    let ?d = "(z + ?n - p) mod ?n"
    have b: "(p + ?d) mod ?n = z"
      using assms(5) z(1) by (rule dist_back)
    have "?d \<noteq> 0"
    proof
      assume "?d = 0"
      with b assms(5) False show False by simp
    qed
    moreover have "?d < ?n"
      using assms(5) by (rule mod_lt)
    ultimately have "stops ?L p ?d"
      using z(2) False by (simp add: stops_def b)
    then show ?thesis ..
  qed
qed

lemma remove_content:
  fixes m :: "('k::zero, 'v::zero) mapShard"
  assumes "robin_hood m" and "holds (buckets m) (unat i) h k"
  shows "\<exists>m'. remove m i = Some (Inr m') \<and> robin_hood m' \<and>
           content m' = (content m)((h, k) := None) \<and> slength m' = slength m - 1 \<and>
           scap m' = scap m"
proof -
  let ?T = "buckets m" and ?n = "length (buckets m)" and ?p = "unat i"
  let ?L = "?T[?p := emptyEntry]"
  let ?m0 = "m\<lparr>buckets := ?T[?p := setDIB (?T ! ?p) 0]\<rparr>"
  have rh: "shaped m" "8 \<le> ?n" "?n \<le> 65536" "growAt m = int ?n * 17 div 20"
    "shrinkAt m = int ?n * 3 div 20" "slength m = int (occupied m)"
    "placed ?T" "ordered ?T" "unique ?T" "anchored ?T"
    using assms(1) by (simp_all add: robin_hood_def)
  have p: "?p < ?n" "dib (?T ! ?p) \<noteq> 0" "hash (?T ! ?p) = h" "key (?T ! ?p) = k"
    using assms(2) by (simp_all add: holds_def)
  have L0: "(buckets ?m0)[unat i := emptyEntry] = ?L"
    by simp
  have n2: "2 \<le> ?n"
    using rh(2) by simp
  have gp: "gapped ?L ?p"
    using rh(7-10) p(1) n2 by (rule gapped_start)
  obtain d where st: "stops ?L ?p d"
    using gapped_start(2) [OF rh(7-10) p(1) n2] by blast
  have "\<exists>m'. remove_loop ?m0 i = Some (Inr m') \<and> framed ?m0 m' \<and> slength m' = slength ?m0 \<and>
           placed (buckets m') \<and> ordered (buckets m') \<and> unique (buckets m') \<and>
           anchored (buckets m') \<and>
           entries (buckets m') = entries ((buckets ?m0)[unat i := emptyEntry]) \<and>
           occupied m' = length (filter (\<lambda>b. dib b \<noteq> 0) ((buckets ?m0)[unat i := emptyEntry]))"
  proof (rule remove_loop_shift [where d = d])
    show "shaped ?m0"
      using rh(1) by simp
    show "3 \<le> length (buckets ?m0)"
      using rh(2) by simp
    show "gapped ((buckets ?m0)[unat i := emptyEntry]) (unat i)"
      unfolding L0 by (fact gp)
    show "stops ((buckets ?m0)[unat i := emptyEntry]) (unat i) d"
      unfolding L0 by (fact st)
  qed
  then obtain m1 where m1: "remove_loop ?m0 i = Some (Inr m1)" "framed ?m0 m1"
    "slength m1 = slength m" "placed (buckets m1)" "ordered (buckets m1)" "unique (buckets m1)"
    "anchored (buckets m1)" "entries (buckets m1) = entries ?L"
    "occupied m1 = length (filter (\<lambda>b. dib b \<noteq> 0) ?L)"
    unfolding L0 by auto
  have fr: "length (buckets m1) = ?n" "smask m1 = smask m" "scap m1 = scap m"
    "growAt m1 = growAt m" "shrinkAt m1 = shrinkAt m"
    using m1(2) by (simp_all add: framed_def)
  have "length (filter (\<lambda>b. dib b \<noteq> 0) ?L) + 1 = occupied m"
    using length_filter_update [OF p(1), of "\<lambda>b. dib b \<noteq> 0" emptyEntry] p(2)
    by (simp add: occupied_def)
  then have oc: "occupied m1 + 1 = occupied m"
    using m1(9) by simp
  have en: "entries (buckets m1) = others ?T ?p"
    using entries_update [OF p(1), of emptyEntry] by (simp add: m1(8))
  let ?m2 = "m1\<lparr>slength := slength m1 - 1\<rparr>"
  have rh2: "robin_hood ?m2"
    using rh(1-6) m1(3-7) fr oc by (simp add: robin_hood_def shaped_def)
  have c2: "content ?m2 = (content m)((h, k) := None)"
  proof (rule content_changed [OF rh(9)])
    show "unique (buckets ?m2)"
      using m1(6) by simp
    show "((h2, k2, u) \<in> entries (buckets ?m2)) = ((h2, k2, u) \<in> entries ?T)"
      if "(h2, k2) \<noteq> (h, k)" for h2 k2 u
      using that p by (subst entries_split [OF p(1)]) (auto simp add: en)
    have "(h, k, v) \<notin> others ?T ?p" for v
    proof
      assume "(h, k, v) \<in> others ?T ?p"
      then obtain q where q: "q < ?n" "q \<noteq> ?p" "dib (?T ! q) \<noteq> 0" "hash (?T ! q) = h"
        "key (?T ! q) = k"
        by (auto simp add: others_def)
      with rh(9) p have "q = ?p"
        unfolding unique_def by simp
      with q(2) show False by simp
    qed
    then show "content ?m2 (h, k) = None"
      by (simp add: content_None_entries en)
  qed
  have run: "remove m i = (if scap ?m2 < int (length (buckets ?m2)) \<and> slength ?m2 \<le> shrinkAt ?m2
      then resize ?m2 (slength ?m2) else Some (Inr ?m2))"
    using p(1) m1(1) by (simp add: remove_def bindR_def Let_def)
  show ?thesis
  proof (cases "scap ?m2 < int (length (buckets ?m2)) \<and> slength ?m2 \<le> shrinkAt ?m2")
    case True
    have sl: "slength ?m2 = int (occupied ?m2)"
      using rh2 by (simp add: robin_hood_def)
    have "slength ?m2 \<le> int ?n * 3 div 20"
      using True fr rh(5) by simp
    then have small: "slength ?m2 \<le> 2 ^ 14"
      using rh(3) by simp
    have "\<exists>m'. resize ?m2 (slength ?m2) = Some (Inr m') \<and> robin_hood m' \<and>
        content m' = content ?m2 \<and> slength m' = slength ?m2 \<and> scap m' = scap ?m2 \<and>
        int (length (buckets m')) = newShard_sz 8 (slength ?m2)"
    proof (rule resize_content [OF rh2])
      show "slength ?m2 \<le> 65536"
        using small by simp
      show "int (occupied ?m2) \<le> newShard_sz 8 (slength ?m2)"
        unfolding sl [symmetric] using small by (rule newShard_sz_le) simp
      have "newShard_sz 8 (slength ?m2) \<le> 2 ^ 14"
        using small by (rule newShard_sz_le) simp
      then show "newShard_sz 8 (slength ?m2) \<le> 32768 \<or>
          int (occupied ?m2) + 1 \<le> newShard_sz 8 (slength ?m2)"
        by simp
    qed
    then obtain m' where m': "resize ?m2 (slength ?m2) = Some (Inr m')" "robin_hood m'"
      "content m' = content ?m2" "slength m' = slength ?m2" "scap m' = scap ?m2"
      by blast
    from True have "remove m i = resize ?m2 (slength ?m2)"
      unfolding run by (rule if_P)
    with m' c2 show ?thesis
      by (simp add: m1(3) fr(3))
  next
    case False
    then have "remove m i = Some (Inr ?m2)"
      unfolding run by (rule if_not_P)
    moreover have "slength ?m2 = slength m - 1" "scap ?m2 = scap m"
      by (simp_all add: m1(3) fr(3))
    ultimately show ?thesis
      using rh2 c2 by blast
  qed
qed


lemma delete_loop_found:
  fixes m :: "('k::zero, 'v::zero) mapShard"
  assumes "shaped m" and "placed (buckets m)" and "ordered (buckets m)" and "unique (buckets m)"
    and "holds (buckets m) p h k"
    and "\<And>j. unat j = p \<Longrightarrow> remove m j = Some (Inr m')"
    and "t < dibn (buckets m ! p)"
    and "unat i = (home (length (buckets m)) (buckets m ! p) + t) mod length (buckets m)"
  shows "delete_loop m h k i = Some (Inr ((val (buckets m ! p), True), m'))"
  using assms(7,8)
proof (induction "dibn (buckets m ! p) - t" arbitrary: t i)
  case 0
  then show ?case by simp
next
  case (Suc x)
  let ?bs = "buckets m" and ?n = "length (buckets m)"
  let ?H = "home ?n (?bs ! p)" and ?d = "dibn (?bs ! p)"
  have p: "p < ?n" "dib (?bs ! p) \<noteq> 0" "hash (?bs ! p) = h" "key (?bs ! p) = k"
    using assms(5) by (simp_all add: holds_def)
  have i: "unat i < ?n"
    unfolding Suc.prems(2) using p(1) by (rule mod_lt)
  have occ: "Suc t \<le> dibn (?bs ! unat i)"
    unfolding Suc.prems(2) using assms(2,3) p(1,2) Suc.prems(1) by (rule path_occupied)
  then have nz: "dib (?bs ! unat i) \<noteq> 0"
    by (simp add: dib_eq_0_iff)
  show ?case
  proof (cases "unat i = p")
    case True
    then have "remove m i = Some (Inr m')"
      by (rule assms(6))
    with True i p show ?thesis
      by (subst delete_loop.simps) simp
  next
    case False
    have nm: "\<not> (hash (?bs ! unat i) = h \<and> key (?bs ! unat i) = k)"
    proof
      assume "hash (?bs ! unat i) = h \<and> key (?bs ! unat i) = k"
      with assms(4) i nz p have "unat i = p"
        by (simp add: unique_def)
      with False show False by simp
    qed
    have t: "Suc t < ?d"
    proof (rule ccontr)
      assume "\<not> Suc t < ?d"
      with Suc.prems(1) have "t = ?d - 1" by simp
      then have "unat i = (?H + (?d - 1)) mod ?n"
        using Suc.prems(2) by simp
      also have "\<dots> = p"
        using assms(2) p(1,2) by (rule placed_position)
      finally show False using False by simp
    qed
    have "unat ((i + 1) AND smask m) = Suc (unat i) mod ?n"
      using assms(1) i by (rule unat_next)
    also have "\<dots> = (?H + Suc t) mod ?n"
      unfolding Suc.prems(2) by (rule Suc_mod_add)
    finally have eq: "unat ((i + 1) AND smask m) = (?H + Suc t) mod ?n" .
    from Suc.hyps(2) have "x = ?d - Suc t" by simp
    then have "delete_loop m h k ((i + 1) AND smask m) = Some (Inr ((val (?bs ! p), True), m'))"
      using t eq by (rule Suc.hyps(1))
    with i nz nm show ?thesis
      by (subst delete_loop.simps) auto
  qed
qed

lemma delete_loop_absent:
  fixes m :: "('k::zero, 'v::zero) mapShard"
  assumes "shaped m" and "\<forall>p. \<not> holds (buckets m) p h k"
    and "unat i < length (buckets m)"
    and "dib (buckets m ! ((unat i + e) mod length (buckets m))) = 0"
  shows "delete_loop m h k i = Some (Inr ((0, False), m))"
  using assms(3,4)
proof (induction e arbitrary: i)
  case 0
  then show ?case
    by (subst delete_loop.simps) simp
next
  case (Suc e)
  let ?bs = "buckets m" and ?n = "length (buckets m)"
  show ?case
  proof (cases "dib (?bs ! unat i) = 0")
    case True
    with Suc.prems(1) show ?thesis
      by (subst delete_loop.simps) simp
  next
    case False
    with assms(2) Suc.prems(1) have nm: "\<not> (hash (?bs ! unat i) = h \<and> key (?bs ! unat i) = k)"
      by (auto simp add: holds_def)
    have i': "unat ((i + 1) AND smask m) = Suc (unat i) mod ?n" "unat ((i + 1) AND smask m) < ?n"
      using assms(1) Suc.prems(1) by (rule unat_next, rule unat_next_less)
    have "(unat ((i + 1) AND smask m) + e) mod ?n = (unat i + Suc e) mod ?n"
      by (simp add: i'(1) mod_add_left_eq)
    with Suc.prems(2) have "delete_loop m h k ((i + 1) AND smask m) = Some (Inr ((0, False), m))"
      by (intro Suc.IH i'(2)) simp
    with False nm Suc.prems(1) show ?thesis
      by (subst delete_loop.simps) auto
  qed
qed

text \<open>
  Deletion on a table that satisfies the invariant; for a key that is not stored it needs
  an empty bucket to stop at.
\<close>

lemma DeleteWithHash_content:
  fixes m :: "('k::zero, 'v::zero) mapShard"
  assumes "robin_hood m"
    and "content m (h, k) \<noteq> None \<or> occupied m < length (buckets m)"
  shows "\<exists>m'. DeleteWithHash m h k =
             Some (Inr ((case content m (h, k) of None \<Rightarrow> (0, False) | Some u \<Rightarrow> (u, True)), m')) \<and>
           robin_hood m' \<and> content m' = (content m)((h, k) := None) \<and>
           slength m' = slength m - (if content m (h, k) = None then 0 else 1) \<and>
           scap m' = scap m"
proof -
  let ?bs = "buckets m" and ?n = "length (buckets m)"
  have rh: "shaped m" "placed ?bs" "ordered ?bs" "unique ?bs"
    using assms(1) by (simp_all add: robin_hood_def)
  have "8 \<le> ?n"
    using assms(1) by (simp add: robin_hood_def)
  then have n0: "?n \<noteq> 0"
    by linarith
  have i: "unat (h AND smask m) = unat h mod ?n"
    using rh(1) by (rule unat_home)
  show ?thesis
  proof (cases "content m (h, k)")
    case None
    then have ab: "\<forall>p. \<not> holds ?bs p h k"
      by (simp add: content_None_iff)
    from None assms(2) obtain z where z: "z < ?n" "dib (?bs ! z) = 0"
      using exists_empty_slot by blast
    have il: "unat (h AND smask m) < ?n"
      using rh(1) by (rule unat_home_less)
    have "dib (?bs ! ((unat (h AND smask m) +
        (z + ?n - unat (h AND smask m)) mod ?n) mod ?n)) = 0"
      using z(2) by (simp only: dist_back [OF il z(1)])
    then have "delete_loop m h k (h AND smask m) = Some (Inr ((0, False), m))"
      by (rule delete_loop_absent [OF rh(1) ab il])
    moreover have "content m = (content m)((h, k) := None)"
      using None by (simp add: fun_upd_idem)
    ultimately show ?thesis
      using None n0 assms(1) by (simp add: DeleteWithHash_def)
  next
    case (Some v)
    then obtain p where p: "holds ?bs p h k" "val (?bs ! p) = v"
      by (rule content_Some_holds)
    then have pp: "p < ?n" "dib (?bs ! p) \<noteq> 0" "hash (?bs ! p) = h"
      by (simp_all add: holds_def)
    have "\<exists>m'. remove m (word_of_nat p) = Some (Inr m') \<and> robin_hood m' \<and>
           content m' = (content m)((h, k) := None) \<and> slength m' = slength m - 1 \<and>
           scap m' = scap m"
    proof (rule remove_content [OF assms(1)])
      have "p < 2 ^ LENGTH(64)"
        using pp(1) shaped_length_le [OF rh(1)] by simp
      then have "unat (word_of_nat p :: u64) = p"
        by (simp add: unat_of_nat)
      with p(1) show "holds ?bs (unat (word_of_nat p :: u64)) h k"
        by simp
    qed
    then obtain m' where m': "remove m (word_of_nat p) = Some (Inr m')" "robin_hood m'"
      "content m' = (content m)((h, k) := None)" "slength m' = slength m - 1" "scap m' = scap m"
      by blast
    have rm: "remove m j = Some (Inr m')" if "unat j = p" for j
    proof -
      from that have "j = word_of_nat p" by auto
      with m'(1) show ?thesis by simp
    qed
    have "delete_loop m h k (h AND smask m) = Some (Inr ((val (?bs ! p), True), m'))"
    proof (rule delete_loop_found [where t = 0 and p = p])
      show "shaped m" "placed ?bs" "ordered ?bs" "unique ?bs" "holds ?bs p h k"
        by (fact rh p(1))+
      show "remove m j = Some (Inr m')" if "unat j = p" for j
        using that by (rule rm)
      show "0 < dibn (?bs ! p)"
        using rh(2) pp(1,2) by (rule placed_position)
      show "unat (h AND smask m) = (home ?n (?bs ! p) + 0) mod ?n"
        using i pp(3) by (simp add: home_def)
    qed
    with Some n0 p(2) m' show ?thesis
      by (simp add: DeleteWithHash_def)
  qed
qed

section \<open>Termination of every insertion\<close>

lemma set_loop_within_effect:
  fixes m :: "('k::zero, 'v::zero) mapShard"
  assumes "set_loop_within f m e i = Some (Inr (r, m'))"
  shows "framed m m' \<and> slength m \<le> slength m' \<and> slength m' \<le> slength m + 1 \<and>
         int (occupied m') - slength m' \<le> int (occupied m) - slength m"
  using assms
proof (induction f arbitrary: m e i)
  case 0
  then show ?case by (simp add: set_loop_within.simps)
next
  case (Suc f)
  let ?b = "buckets m ! unat i"
  have q: "unat i < length (buckets m)"
    using Suc.prems by (auto simp add: set_loop_within.simps split: if_splits)
  note upd = occupied_update [OF q]
  show ?case
  proof (cases "dib ?b = 0")
    case True
    with Suc.prems q have "m' = m\<lparr>buckets := (buckets m)[unat i := e], slength := slength m + 1\<rparr>"
      by (simp add: set_loop_within.simps)
    with upd [of e] True show ?thesis
      by (simp add: framed_def)
  next
    case occ: False
    show ?thesis
    proof (cases "hash e = hash ?b \<and> key e = key ?b")
      case True
      with Suc.prems q occ have "m' = m\<lparr>buckets := (buckets m)[unat i := ?b\<lparr>val := val e\<rparr>]\<rparr>"
        by (simp add: set_loop_within.simps)
      with upd [of "?b\<lparr>val := val e\<rparr>"] occ show ?thesis
        by (simp add: framed_def)
    next
      case nm: False
      show ?thesis
      proof (cases "dib ?b < dib e")
        case True
        let ?m1 = "m\<lparr>buckets := (buckets m)[unat i := e]\<rparr>"
        from Suc.prems q occ nm True have "set_loop_within f ?m1
            (setDIB ?b (dib ?b + 1)) ((i + 1) AND smask m) = Some (Inr (r, m'))"
          by (simp add: set_loop_within.simps)
        then have "framed ?m1 m' \<and> slength ?m1 \<le> slength m' \<and> slength m' \<le> slength ?m1 + 1 \<and>
            int (occupied m') - slength m' \<le> int (occupied ?m1) - slength ?m1"
          by (rule Suc.IH)
        moreover have "occupied ?m1 \<le> occupied m"
          using upd [of e] occ by (simp split: if_splits)
        ultimately show ?thesis
          by (simp add: framed_def)
      next
        case False
        with Suc.prems q occ nm have "set_loop_within f m
            (setDIB e (dib e + 1)) ((i + 1) AND smask m) = Some (Inr (r, m'))"
          by (simp add: set_loop_within.simps)
        then show ?thesis
          by (rule Suc.IH)
      qed
    qed
  qed
qed

lemma shaped_framed: "framed m m' \<Longrightarrow> shaped m \<Longrightarrow> shaped m'"
  by (simp add: framed_def shaped_def)

text \<open>One insertion into a table with room: \<open>set\<close> returns, and the table has room for
  as many further insertions as the length field still leaves.\<close>

lemma set_shard_room:
  fixes m :: "('k::zero, 'v::zero) mapShard"
  assumes "shaped m" and "int (occupied m) \<le> slength m"
    and "slength m < int (length (buckets m))"
  shows "\<exists>r m'. set_loop_within (length (buckets m)) m \<lparr>hdib = makeHDIB h 1, key = k, val = v\<rparr>
             (hash \<lparr>hdib = makeHDIB h 1, key = k, val = v\<rparr> AND smask m) = Some (Inr (r, m')) \<and>
           set_shard m h k v = Some (Inr (r, m')) \<and> framed m m' \<and> shaped m' \<and>
           slength m \<le> slength m' \<and> slength m' \<le> slength m + 1 \<and>
           int (occupied m') \<le> slength m'"
proof -
  let ?e = "\<lparr>hdib = makeHDIB h 1, key = k, val = v\<rparr>"
  obtain x where x: "set_loop_within (length (buckets m)) m ?e (hash ?e AND smask m) = Some (Inr x)"
    "set_shard m h k v = Some (Inr x)"
    using set_shard_returns [OF assms, of h k v] by blast
  obtain r m' where rm: "x = (r, m')" by (cases x)
  have "framed m m' \<and> slength m \<le> slength m' \<and> slength m' \<le> slength m + 1 \<and>
      int (occupied m') - slength m' \<le> int (occupied m) - slength m"
    using x(1) unfolding rm by (rule set_loop_within_effect)
  with assms(1,2) x show ?thesis
    unfolding rm by (auto intro: shaped_framed)
qed

lemma resize_fill_returns:
  fixes nmap :: "('k::zero, 'v::zero) mapShard"
  assumes "shaped nmap" and "int (occupied nmap) \<le> slength nmap"
    and "slength nmap + int (length (filter (\<lambda>b. dib b \<noteq> 0) bs)) \<le> int (length (buckets nmap))"
  shows "\<exists>m'. resize_fill bs nmap = Some (Inr m') \<and> framed nmap m' \<and> shaped m' \<and>
           int (occupied m') \<le> slength m' \<and>
           slength m' \<le> slength nmap + int (length (filter (\<lambda>b. dib b \<noteq> 0) bs))"
  using assms
proof (induction bs arbitrary: nmap)
  case Nil
  then show ?case by simp
next
  case (Cons b bs)
  show ?case
  proof (cases "dib b = 0")
    case True
    have "\<exists>m'. resize_fill bs nmap = Some (Inr m') \<and> framed nmap m' \<and> shaped m' \<and>
        int (occupied m') \<le> slength m' \<and>
        slength m' \<le> slength nmap + int (length (filter (\<lambda>b. dib b \<noteq> 0) bs))"
      using Cons.prems True by (intro Cons.IH) simp_all
    with True show ?thesis by simp
  next
    case False
    then have pos: "0 < dib b"
      by (simp add: word_greater_zero_iff)
    have "slength nmap < int (length (buckets nmap))"
      using Cons.prems(3) False by simp
    with Cons.prems(1,2) obtain r m1 where
      m1: "set_shard nmap (hash b) (key b) (val b) = Some (Inr (r, m1))" "framed nmap m1"
        "shaped m1" "slength m1 \<le> slength nmap + 1" "int (occupied m1) \<le> slength m1"
      using set_shard_room [of nmap "hash b" "key b" "val b"] by blast
    have "\<exists>m'. resize_fill bs m1 = Some (Inr m') \<and> framed m1 m' \<and> shaped m' \<and>
        int (occupied m') \<le> slength m' \<and>
        slength m' \<le> slength m1 + int (length (filter (\<lambda>b. dib b \<noteq> 0) bs))"
    proof (rule Cons.IH)
      show "shaped m1" "int (occupied m1) \<le> slength m1"
        by (fact m1)+
      show "slength m1 + int (length (filter (\<lambda>b. dib b \<noteq> 0) bs)) \<le> int (length (buckets m1))"
        using Cons.prems(3) False m1(2,4) by (simp add: framed_def)
    qed
    then obtain m' where m': "resize_fill bs m1 = Some (Inr m')" "framed m1 m'" "shaped m'"
      "int (occupied m') \<le> slength m'"
      "slength m' \<le> slength m1 + int (length (filter (\<lambda>b. dib b \<noteq> 0) bs))"
      by blast
    have "resize_fill (b # bs) nmap = Some (Inr m')"
      using pos m1(1) m'(1) by (simp add: bindR_def)
    moreover have "framed nmap m'"
      using m1(2) m'(2) by (rule framed_trans)
    moreover have "slength m' \<le> slength nmap + int (length (filter (\<lambda>b. dib b \<noteq> 0) (b # bs)))"
      using m'(5) m1(4) False by simp
    ultimately show ?thesis
      using m'(3,4) by blast
  qed
qed

text \<open>
  \<open>resize\<close> makes its insertions without a grow check; they terminate because the new
  table has at least as many buckets as there are entries to move.
\<close>

lemma resize_returns:
  fixes m :: "('k::zero, 'v::zero) mapShard"
  assumes "c \<le> 2 ^ 48" and "int (occupied m) \<le> newShard_sz 8 c"
  shows "\<exists>m'. resize m c = Some (Inr m') \<and> sized m' \<and> slength m' \<le> int (occupied m) \<and>
           int (length (buckets m')) = newShard_sz 8 c \<and> scap m' = scap m"
proof -
  let ?nmap = "newShard c :: ('k, 'v) mapShard"
  obtain j where j: "3 \<le> j" "j \<le> 48"
    and eq: "?nmap = \<lparr>scap = c, slength = 0, growAt = (2 ^ j * 17) div 20,
       shrinkAt = (2 ^ j * 3) div 20, smask = mask j, buckets = replicate (2 ^ j) emptyEntry\<rparr>"
    using assms(1) newShard_eq [of c, where ?'a = 'k and ?'b = 'v] by metis
  have sh: "shaped ?nmap"
    using assms(1) by (rule shaped_newShard)
  have ln: "int (length (buckets ?nmap)) = newShard_sz 8 c"
    by (rule length_buckets_newShard)
  have lt: "x * 17 div 20 < x" if "0 < x" for x :: int
    using that by linarith
  have "(0 :: int) < 2 ^ j"
    by simp
  then have "(2 :: int) ^ j * 17 div 20 < 2 ^ j"
    by (rule lt)
  then have g: "growAt ?nmap < int (length (buckets ?nmap))"
    "shrinkAt ?nmap \<le> int (length (buckets ?nmap))"
    by (simp_all add: eq)
  have on: "occupied ?nmap = 0"
    by (rule occupied_newShard)
  have om: "length (filter (\<lambda>b. dib b \<noteq> 0) (buckets m)) = occupied m"
    by (simp add: occupied_def)
  have "\<exists>m'. resize_fill (buckets m) ?nmap = Some (Inr m') \<and> framed ?nmap m' \<and> shaped m' \<and>
      int (occupied m') \<le> slength m' \<and>
      slength m' \<le> slength ?nmap + int (length (filter (\<lambda>b. dib b \<noteq> 0) (buckets m)))"
  proof (rule resize_fill_returns [OF sh])
    show "int (occupied ?nmap) \<le> slength ?nmap"
      by (simp add: on)
    show "slength ?nmap + int (length (filter (\<lambda>b. dib b \<noteq> 0) (buckets m)))
        \<le> int (length (buckets ?nmap))"
      using assms(2) by (simp add: om ln)
  qed
  then obtain m' where m': "resize_fill (buckets m) ?nmap = Some (Inr m')" "framed ?nmap m'"
    "shaped m'" "int (occupied m') \<le> slength m'" "slength m' \<le> int (occupied m)"
    by (auto simp add: om)
  let ?r = "m'\<lparr>scap := scap m\<rparr>"
  have "resize m c = Some (Inr ?r)"
    using m'(1) by (simp add: resize_def bindR_def)
  moreover have "sized ?r"
    using m'(2-4) g by (simp add: sized_def framed_def shaped_def occupied_def)
  moreover have "int (length (buckets ?r)) = newShard_sz 8 c"
    using m'(2) ln by (simp add: framed_def)
  ultimately show ?thesis
    using m'(5) by simp
qed


lemma sized_newShard:
  assumes "c \<le> 2 ^ 48"
  shows "sized (newShard c :: ('k::zero, 'v::zero) mapShard)"
proof -
  let ?nmap = "newShard c :: ('k, 'v) mapShard"
  obtain j where eq: "?nmap = \<lparr>scap = c, slength = 0, growAt = (2 ^ j * 17) div 20,
       shrinkAt = (2 ^ j * 3) div 20, smask = mask j, buckets = replicate (2 ^ j) emptyEntry\<rparr>"
    using assms newShard_eq [of c, where ?'a = 'k and ?'b = 'v] by metis
  have lt: "x * 17 div 20 < x" if "0 < x" for x :: int
    using that by linarith
  have "(0 :: int) < 2 ^ j"
    by simp
  then have "(2 :: int) ^ j * 17 div 20 < 2 ^ j"
    by (rule lt)
  then have "growAt ?nmap < int (length (buckets ?nmap))"
    "shrinkAt ?nmap \<le> int (length (buckets ?nmap))"
    by (simp_all add: eq)
  moreover have "shaped ?nmap"
    using assms by (rule shaped_newShard)
  ultimately show ?thesis
    by (simp add: sized_def occupied_newShard)
qed

text \<open>
  C7: every insertion terminates. Let the shard have a power-of-two bucket array with
  the matching mask, a grow threshold below the bucket-array length, a shrink threshold
  not above it and a length field that is at least the number of occupied buckets
  (\<open>sized\<close>: \<open>newShard\<close> builds such a table, and \<open>SetWithHash\<close> and \<open>DeleteWithHash\<close>
  return one), with at most \<open>2 ^ 47\<close> buckets so that the doubled array can be
  allocated. Then the grow check of \<open>SetWithHash\<close> returns a table \<open>m2\<close> (the receiver
  itself, or its rebuilt copy, all of whose insertions in \<open>resize\<close> terminate) in which
  the length field is strictly below the bucket-array length; on \<open>m2\<close> the loop of
  \<open>set\<close> returns after at most \<open>len(buckets)\<close> iterations; and so \<open>SetWithHash\<close>
  returns, for every hash, key and value, with a table that is \<open>sized\<close> again.
\<close>

theorem SetWithHash_terminates:
  fixes m :: "('k::zero, 'v::zero) mapShard"
  assumes "sized m" and "length (buckets m) \<le> 2 ^ 47"
  shows "\<exists>m2 r m'.
           (if growAt m \<le> slength m then resize m (int (length (buckets m)) * 2)
            else Some (Inr m)) = Some (Inr m2) \<and>
           slength m2 < int (length (buckets m2)) \<and>
           set_loop_within (length (buckets m2)) m2 \<lparr>hdib = makeHDIB h 1, key = k, val = v\<rparr>
             (hash \<lparr>hdib = makeHDIB h 1, key = k, val = v\<rparr> AND smask m2) = Some (Inr (r, m')) \<and>
           SetWithHash m h k v = Some (Inr (r, m')) \<and> sized m'"
proof -
  let ?n = "length (buckets m)"
  have sz: "shaped m" "growAt m < int ?n" "int (occupied m) \<le> slength m"
    using assms(1) by (simp_all add: sized_def)
  have n0: "0 < ?n"
    using sz(1) by (rule shaped_length_pos)
  have "\<exists>m2. (if growAt m \<le> slength m then resize m (int ?n * 2) else Some (Inr m)) = Some (Inr m2) \<and>
      sized m2 \<and> slength m2 < int (length (buckets m2))"
  proof (cases "growAt m \<le> slength m")
    case True
    have c: "int ?n * 2 \<le> 2 ^ 48"
      using assms(2) by simp
    then have "int ?n * 2 \<le> newShard_sz 8 (int ?n * 2)"
      by (rule newShard_sz_le) simp
    then have o: "int (occupied m) \<le> newShard_sz 8 (int ?n * 2)"
      using occupied_le [of m] by simp
    obtain m2 where m2: "resize m (int ?n * 2) = Some (Inr m2)" "sized m2"
      "slength m2 \<le> int (occupied m)" "int (length (buckets m2)) = newShard_sz 8 (int ?n * 2)"
      using resize_returns [OF c o] by blast
    have "int (occupied m) \<le> int ?n" "0 < int ?n"
      using occupied_le [of m] n0 by simp_all
    then have "slength m2 < int (length (buckets m2))"
      using m2(3,4) \<open>int ?n * 2 \<le> newShard_sz 8 (int ?n * 2)\<close> by linarith
    with True m2(1,2) show ?thesis by simp
  next
    case False
    with sz(2) have "slength m < int ?n" by simp
    with False assms(1) show ?thesis by simp
  qed
  then obtain m2 where m2: "(if growAt m \<le> slength m then resize m (int ?n * 2) else Some (Inr m)) =
      Some (Inr m2)" "sized m2" "slength m2 < int (length (buckets m2))"
    by blast
  have s2: "shaped m2" "growAt m2 < int (length (buckets m2))" "int (occupied m2) \<le> slength m2"
    "shrinkAt m2 \<le> int (length (buckets m2))"
    using m2(2) by (simp_all add: sized_def)
  obtain r m' where rm: "set_loop_within (length (buckets m2)) m2 \<lparr>hdib = makeHDIB h 1, key = k, val = v\<rparr>
        (hash \<lparr>hdib = makeHDIB h 1, key = k, val = v\<rparr> AND smask m2) = Some (Inr (r, m'))"
      "set_shard m2 h k v = Some (Inr (r, m'))" "framed m2 m'" "shaped m'"
      "int (occupied m') \<le> slength m'"
    using set_shard_room [OF s2(1,3) m2(3), of h k v] by blast
  have "buckets m \<noteq> []"
    using n0 by simp
  then have "SetWithHash m h k v = set_shard m2 h k v"
    using m2(1) by (simp add: SetWithHash_def bindR_def)
  moreover have "sized m'"
    using rm(3-5) s2(2,4) by (simp add: sized_def framed_def)
  ultimately show ?thesis
    using m2(1,3) rm(1,2) by auto
qed

theorem SetWithHash_terminates_witness:
  "sized full_table \<and> length (buckets full_table) \<le> 2 ^ 47 \<and>
   slength full_table = int (length (buckets full_table)) \<and>
   (\<exists>m2 r m'. resize full_table 16 = Some (Inr m2) \<and> slength m2 < int (length (buckets m2)) \<and>
      SetWithHash full_table 10 0xA0000 7 = Some (Inr (r, m')) \<and> sized m')"
proof -
  have "growAt full_table < int (length (buckets full_table))"
    and "shrinkAt full_table \<le> int (length (buckets full_table))"
    and "int (occupied full_table) \<le> slength full_table"
    by (simp_all add: full_table_def occupied_def mask_16)
  then have a: "sized full_table"
    using shaped_full_table by (simp add: sized_def)
  have b: "length (buckets full_table) \<le> 2 ^ 47"
    by (simp add: full_table_def)
  have c: "growAt full_table \<le> slength full_table" "int (length (buckets full_table)) * 2 = 16"
    "slength full_table = int (length (buckets full_table))"
    by (simp_all add: full_table_def)
  from SetWithHash_terminates [OF a b, of 10 "0xA0000" 7] a b c show ?thesis
    by auto
qed

section \<open>Deletion keeps the table sized\<close>

text \<open>
  What the backward shift of \<open>remove\<close> does to the counters when it returns: the length
  field is untouched, and no more buckets are occupied than in the table with the gap
  emptied.
\<close>

lemma remove_loop_effect:
  fixes m :: "('k::zero, 'v::zero) mapShard"
  assumes "remove_loop m i = Some (Inr m')"
  shows "framed m m' \<and> slength m' = slength m \<and>
         occupied m' \<le> occupied (m\<lparr>buckets := (buckets m)[unat i := emptyEntry]\<rparr>)"
proof -
  let ?P = "\<lambda>(m :: ('k, 'v) mapShard) (i :: u64) (y :: error + ('k, 'v) mapShard).
    \<forall>m'. y = Inr m' \<longrightarrow> framed m m' \<and> slength m' = slength m \<and>
      occupied m' \<le> occupied (m\<lparr>buckets := (buckets m)[unat i := emptyEntry]\<rparr>)"
  have "?P m i (Inr m')"
  proof (rule remove_loop.raw_induct [where P = ?P, OF _ assms])
    fix f and m :: "('k, 'v) mapShard" and i y
    assume IH: "\<And>m i y. f m i = Some y \<Longrightarrow> ?P m i y"
      and body: "(let pi = i; i' = (i + 1) AND smask m in
         if length (buckets m) \<le> unat i' then Some (Inl IndexOutOfRange)
         else if length (buckets m) \<le> unat pi then Some (Inl IndexOutOfRange)
         else if dib (buckets m ! unat i') \<le> 1 then
           Some (Inr (m\<lparr>buckets := (buckets m)[unat pi := emptyEntry]\<rparr>))
         else
           f (m\<lparr>buckets := (buckets m)[unat pi :=
                  setDIB (buckets m ! unat i') (dib (buckets m ! unat i') - 1)]\<rparr>)
             i') = Some y"
    let ?T = "buckets m" and ?g = "unat i" and ?g' = "unat ((i + 1) AND smask m)"
    let ?s = "setDIB (?T ! ?g') (dib (?T ! ?g') - 1)"
    let ?m1 = "m\<lparr>buckets := ?T[?g := ?s]\<rparr>"
    show "?P m i y"
    proof (intro allI impI)
      fix m'
      assume y: "y = Inr m'"
      from body y have g: "?g < length ?T" "?g' < length ?T"
        by (auto simp add: Let_def split: if_splits)
      show "framed m m' \<and> slength m' = slength m \<and>
          occupied m' \<le> occupied (m\<lparr>buckets := ?T[?g := emptyEntry]\<rparr>)"
      proof (cases "dib (?T ! ?g') \<le> 1")
        case True
        with body y g have "m' = m\<lparr>buckets := ?T[?g := emptyEntry]\<rparr>"
          by (simp add: Let_def)
        then show ?thesis
          by (simp add: framed_def)
      next
        case False
        with body g have "f ?m1 ((i + 1) AND smask m) = Some y"
          by (simp add: Let_def)
        then have "?P ?m1 ((i + 1) AND smask m) y"
          by (rule IH)
        with y have r: "framed ?m1 m'" "slength m' = slength ?m1"
          "occupied m' \<le> occupied (?m1\<lparr>buckets := (buckets ?m1)[?g' := emptyEntry]\<rparr>)"
          by simp_all
        have x: "dibn (?T ! ?g') \<noteq> 0" "\<not> dibn (?T ! ?g') \<le> 1"
          using False by (simp_all add: dib_le_1_iff)
        then have "dibn ?s = dibn (?T ! ?g') - 1"
          by (intro dibn_setDIB_pred)
        with x have snz: "dib ?s \<noteq> 0"
          by (simp add: dib_eq_0_iff del: dib_setDIB)
        have xnz: "dib (?T ! ?g') \<noteq> 0"
          using x(1) by (simp add: dib_eq_0_iff)
        have "occupied (m\<lparr>buckets := ?T[?g := ?s, ?g' := emptyEntry]\<rparr>) \<le>
            occupied (m\<lparr>buckets := ?T[?g := emptyEntry]\<rparr>)"
        proof (cases "?g' = ?g")
          case True
          then show ?thesis by simp
        next
          case ne: False
          have a: "occupied ?m1 + (if dib (?T ! ?g) \<noteq> 0 then 1 else 0) = occupied m + 1"
            using occupied_update [OF g(1), of ?s] snz by simp
          have b: "occupied (m\<lparr>buckets := ?T[?g := emptyEntry]\<rparr>) +
              (if dib (?T ! ?g) \<noteq> 0 then 1 else 0) = occupied m"
            using occupied_update [OF g(1), of emptyEntry] by simp
          have "occupied (?m1\<lparr>buckets := (buckets ?m1)[?g' := emptyEntry]\<rparr>) + 1 = occupied ?m1"
            using occupied_update [of ?g' ?m1 emptyEntry] g(2) ne xnz by simp
          with a b show ?thesis by simp
        qed
        with r show ?thesis
          by (simp add: framed_def)
      qed
    qed
  qed
  then show ?thesis by simp
qed

lemma remove_sized:
  fixes m :: "('k::zero, 'v::zero) mapShard"
  assumes "remove m i = Some (Inr m')" and "sized m" and "dib (buckets m ! unat i) \<noteq> 0"
    and "length (buckets m) \<le> 2 ^ 48"
  shows "sized m'"
proof -
  let ?T = "buckets m" and ?p = "unat i"
  let ?m0 = "m\<lparr>buckets := ?T[?p := setDIB (?T ! ?p) 0]\<rparr>"
  have sz: "shaped m" "growAt m < int (length ?T)" "shrinkAt m \<le> int (length ?T)"
    "int (occupied m) \<le> slength m"
    using assms(2) by (simp_all add: sized_def)
  have p: "?p < length ?T"
    using assms(1) by (auto simp add: remove_def split: if_splits)
  obtain m1 where m1: "remove_loop ?m0 i = Some (Inr m1)"
    and rest: "(let m2 = m1\<lparr>slength := slength m1 - 1\<rparr> in
         if scap m2 < int (length (buckets m2)) \<and> slength m2 \<le> shrinkAt m2
         then resize m2 (slength m2) else Some (Inr m2)) = Some (Inr m')"
    using assms(1) p
    by (auto simp add: remove_def bindR_def split: option.splits sum.splits)
  have e: "framed ?m0 m1" "slength m1 = slength ?m0"
    "occupied m1 \<le> occupied (?m0\<lparr>buckets := (buckets ?m0)[?p := emptyEntry]\<rparr>)"
    using remove_loop_effect [OF m1] by simp_all
  have "occupied (m\<lparr>buckets := ?T[?p := emptyEntry]\<rparr>) + 1 = occupied m"
    using occupied_update [OF p, of emptyEntry] assms(3) by simp
  with e(3) have oc: "occupied m1 + 1 \<le> occupied m"
    by simp
  let ?m2 = "m1\<lparr>slength := slength m1 - 1\<rparr>"
  have s2: "sized ?m2"
    using sz e(1,2) oc by (simp add: sized_def framed_def shaped_def)
  have rest': "(if scap ?m2 < int (length (buckets ?m2)) \<and> slength ?m2 \<le> shrinkAt ?m2
      then resize ?m2 (slength ?m2) else Some (Inr ?m2)) = Some (Inr m')"
    using rest by (simp only: Let_def)
  show ?thesis
  proof (cases "scap ?m2 < int (length (buckets ?m2)) \<and> slength ?m2 \<le> shrinkAt ?m2")
    case True
    have r: "resize ?m2 (slength ?m2) = Some (Inr m')"
      using rest' unfolding if_P [OF True] .
    have "slength ?m2 \<le> int (length ?T)"
      using True sz(3) e(1) by (simp add: framed_def)
    then have c: "slength ?m2 \<le> 2 ^ 48"
      using assms(4) by simp
    then have "slength ?m2 \<le> newShard_sz 8 (slength ?m2)"
      by (rule newShard_sz_le) simp
    moreover have "int (occupied ?m2) \<le> slength ?m2"
      using s2 by (simp add: sized_def)
    ultimately have "int (occupied ?m2) \<le> newShard_sz 8 (slength ?m2)"
      by simp
    with c obtain m'' where "resize ?m2 (slength ?m2) = Some (Inr m'')" "sized m''"
      using resize_returns [of "slength ?m2" ?m2] by blast
    with r show ?thesis by simp
  next
    case False
    have "m' = ?m2"
      using rest' unfolding if_not_P [OF False] by simp
    with s2 show ?thesis by simp
  qed
qed

lemma delete_loop_sized:
  fixes m :: "('k::zero, 'v::zero) mapShard"
  assumes "delete_loop m h k i = Some (Inr (r, m'))" and "sized m"
    and "length (buckets m) \<le> 2 ^ 48"
  shows "sized m'"
proof -
  let ?P = "\<lambda>(m :: ('k, 'v) mapShard) (h :: u64) (k :: 'k) (i :: u64)
      (y :: error + ('v \<times> bool) \<times> ('k, 'v) mapShard).
    \<forall>r m'. y = Inr (r, m') \<longrightarrow> sized m \<longrightarrow> length (buckets m) \<le> 2 ^ 48 \<longrightarrow> sized m'"
  have "?P m h k i (Inr (r, m'))"
  proof (rule delete_loop.raw_induct [where P = ?P, OF _ assms(1)])
    fix f and m :: "('k, 'v) mapShard" and h k i y
    assume IH: "\<And>m h k i y. f m h k i = Some y \<Longrightarrow> ?P m h k i y"
      and body: "(if length (buckets m) \<le> unat i then Some (Inl IndexOutOfRange)
         else if dib (buckets m ! unat i) = 0 then Some (Inr ((0, False), m))
         else if hash (buckets m ! unat i) = h \<and> key (buckets m ! unat i) = k
           then (case remove m i of None \<Rightarrow> None | Some (Inl err) \<Rightarrow> Some (Inl err)
                 | Some (Inr m') \<Rightarrow> Some (Inr ((val (buckets m ! unat i), True), m')))
           else f m h k ((i + 1) AND smask m)) = Some y"
    show "?P m h k i y"
    proof (intro allI impI)
      fix r m'
      assume y: "y = Inr (r, m')" and sz: "sized m" and n: "length (buckets m) \<le> 2 ^ 48"
      from body y have i: "unat i < length (buckets m)"
        by (auto split: if_splits)
      show "sized m'"
      proof (cases "dib (buckets m ! unat i) = 0")
        case True
        with body y i sz show ?thesis by simp
      next
        case occ: False
        show ?thesis
        proof (cases "hash (buckets m ! unat i) = h \<and> key (buckets m ! unat i) = k")
          case True
          with body y i occ have "remove m i = Some (Inr m')"
            by (auto split: option.splits sum.splits)
          then show ?thesis
            using sz occ n by (rule remove_sized)
        next
          case False
          with body i occ have "f m h k ((i + 1) AND smask m) = Some y"
            by simp
          then have "?P m h k ((i + 1) AND smask m) y"
            by (rule IH)
          with y sz n show ?thesis by blast
        qed
      qed
    qed
  qed
  with assms(2,3) show ?thesis by blast
qed

text \<open>
  Whenever \<open>DeleteWithHash\<close> returns it leaves the table \<open>sized\<close>. So every table
  that insertions and deletions reach from one built by \<open>newShard\<close> is \<open>sized\<close>.
\<close>

lemma DeleteWithHash_sized:
  fixes m :: "('k::zero, 'v::zero) mapShard"
  assumes "DeleteWithHash m h k = Some (Inr (r, m'))" and "sized m"
    and "length (buckets m) \<le> 2 ^ 48"
  shows "sized m'"
proof (cases "length (buckets m) = 0")
  case True
  with assms(1,2) show ?thesis
    by (simp add: DeleteWithHash_def)
next
  case False
  with assms(1) have "delete_loop m h k (h AND smask m) = Some (Inr (r, m'))"
    by (simp add: DeleteWithHash_def)
  then show ?thesis
    using assms(2,3) by (rule delete_loop_sized)
qed

section \<open>Overflow of the displacement field\<close>

lemma unat_word_of_nat: "n < 2 ^ 64 \<Longrightarrow> unat (word_of_nat n :: u64) = n"
  by (simp add: unat_of_nat)

lemma unat_ckey: "t < 65536 \<Longrightarrow> unat (ckey t) = t * 2 ^ 33"
  unfolding ckey_def by (rule unat_word_of_nat) simp

lemma unat_chash: "t < 65536 \<Longrightarrow> unat (chash t) = t * 2 ^ 17"
  unfolding chash_def by (rule unat_word_of_nat) simp

lemma ckey_inj: "s < 65536 \<Longrightarrow> t < 65536 \<Longrightarrow> ckey s = ckey t \<Longrightarrow> s = t"
proof -
  assume a: "s < 65536" "t < 65536" and "ckey s = ckey t"
  then have "unat (ckey s) = unat (ckey t)" by simp
  with a show ?thesis by (simp add: unat_ckey)
qed

lemma makeHash_ckey: "t < 65536 \<Longrightarrow> makeHash (ckey t) = chash t"
proof -
  assume t: "t < 65536"
  have "unat (makeHash (ckey t)) = unat (ckey t) div 2 ^ 16"
    unfolding makeHash_def dibBitSize_def unat_drop_bit_eq by (simp only: drop_bit_eq_div)
  also have "\<dots> = t * 2 ^ 17"
    using t by (simp add: unat_ckey)
  finally have "unat (makeHash (ckey t)) = unat (chash t)"
    using t by (simp add: unat_chash)
  then show ?thesis by (simp only: word_unat_eq_iff)
qed

lemma ckey_shard: "t < 65536 \<Longrightarrow> ckey t AND 15 = 0"
proof -
  assume t: "t < 65536"
  have "unat (ckey t AND mask 4) = 0"
    using t by (simp add: unat_and_mask unat_ckey)
  then show ?thesis
    by (simp add: mask_eq_exp_minus_1 unat_eq_0)
qed

lemma chash_home:
  assumes "t < 65536" and "a \<le> 17"
  shows "chash t AND mask a = 0"
proof -
  from assms(2) have "(2 :: nat) ^ a dvd 2 ^ 17"
    by (rule le_imp_power_dvd)
  then have "(t * 2 ^ 17) mod 2 ^ a = 0"
    by simp
  then have "unat (chash t AND mask a) = 0"
    using assms(1) by (simp add: unat_and_mask unat_chash)
  then show ?thesis
    by (simp add: unat_eq_0)
qed

lemma chash_less: "t < 65536 \<Longrightarrow> chash t < 2 ^ 48"
proof -
  assume t: "t < 65536"
  then have "unat (chash t) < 2 ^ 48"
    by (simp add: unat_chash)
  then show ?thesis
    by (simp add: word_less_nat_alt)
qed

lemma setDIB_makeHDIB:
  "setDIB \<lparr>hdib = makeHDIB h d, key = k, val = v\<rparr> d' = \<lparr>hdib = makeHDIB h d', key = k, val = v\<rparr>"
  by (auto simp add: setDIB_def makeHDIB_def maxDIB_mask hashMask_eq dibBitSize_def bit_eq_iff
      bit_simps)

lemma and_mask_small:
  assumes "n < 2 ^ a" and "a \<le> 17"
  shows "(word_of_nat n :: u64) AND mask a = word_of_nat n"
proof -
  have "(2 :: nat) ^ a \<le> 2 ^ 17"
    using assms(2) by (intro power_increasing) simp_all
  with assms(1) have n: "n < 2 ^ 64" by simp
  have "unat (word_of_nat n AND mask a :: u64) = unat (word_of_nat n :: u64) mod 2 ^ a"
    by (rule unat_and_mask)
  also have "\<dots> = n"
    using assms(1) by (simp only: unat_word_of_nat [OF n] mod_less)
  finally have "unat (word_of_nat n AND mask a :: u64) = unat (word_of_nat n :: u64)"
    by (simp only: unat_word_of_nat [OF n])
  then show ?thesis
    by (simp only: word_unat_eq_iff)
qed

lemma word_of_nat_Suc: "(word_of_nat s :: u64) + 1 = word_of_nat (Suc s)"
  by simp

lemma dib_walker:
  assumes "n < 65536"
  shows "dib \<lparr>hdib = makeHDIB h (word_of_nat n), key = k, val = v\<rparr> = word_of_nat n"
  using and_mask_small [of n 16] assms by (simp del: of_nat_Suc)

lemma word_of_nat_eq_0:
  assumes "n < 65536" and "(word_of_nat n :: u64) = 0"
  shows "n = 0"
proof -
  from assms(2) have "unat (word_of_nat n :: u64) = unat (0 :: u64)"
    by (rule arg_cong)
  with assms(1) show ?thesis
    by (simp add: unat_word_of_nat)
qed

lemma unat_index: "s < 2 ^ 17 \<Longrightarrow> unat (word_of_nat s :: u64) = s"
  by (rule unat_word_of_nat) simp

lemma length_pile [simp]: "j \<le> n \<Longrightarrow> length (pile n j) = n"
  by (simp add: pile_def)

lemma pile_nth_entry: "s < j \<Longrightarrow> pile n j ! s = pile_entry s"
  by (simp add: pile_def nth_append)

lemma pile_nth_empty: "j \<le> s \<Longrightarrow> s < n \<Longrightarrow> pile n j ! s = emptyEntry"
  by (simp add: pile_def nth_append)

lemma pile_Suc: "j < n \<Longrightarrow> (pile n j)[j := pile_entry j] = pile n (Suc j)"
proof -
  assume "j < n"
  then have "replicate (n - j) (emptyEntry :: (u64, nat) entry) = emptyEntry # replicate (n - Suc j) emptyEntry"
    by (cases "n - j") (simp_all add: Suc_diff_Suc)
  then show ?thesis
    by (simp add: pile_def list_update_append)
qed


lemma pile_shard_fields [simp]:
  "scap (pile_shard c a j) = c" "slength (pile_shard c a j) = int j"
  "growAt (pile_shard c a j) = (2 ^ a * 17) div 20"
  "shrinkAt (pile_shard c a j) = (2 ^ a * 3) div 20"
  "smask (pile_shard c a j) = mask a" "buckets (pile_shard c a j) = pile (2 ^ a) j"
  by (simp_all add: pile_shard_def)

text \<open>
  The walk of \<open>set\<close> for the next key of the pile: at bucket \<open>s\<close> the candidate has the
  displacement \<open>s + 1\<close>, as has the entry stored there, so it moves on; it is stored in
  bucket \<open>j\<close> with the displacement field \<open>j + 1\<close> cut to 16 bits.
\<close>

lemma set_loop_pile:
  assumes "j < 65536" and "j < 2 ^ a" and "a \<le> 17" and "s \<le> j"
  shows "set_loop (pile_shard c a j)
           \<lparr>hdib = makeHDIB (chash j) (word_of_nat (Suc s)), key = ckey j, val = Suc j\<rparr>
           (word_of_nat s) = Some (Inr ((0, False), pile_shard c a (Suc j)))"
  using assms(4)
proof (induction "j - s" arbitrary: s)
  case 0
  then have sj: "s = j" by simp
  let ?m = "pile_shard c a j"
  have ui: "unat (word_of_nat j :: u64) = j"
    using assms(1) by (intro unat_index) simp
  have e: "pile (2 ^ a) j ! j = emptyEntry"
    using assms(2) by (intro pile_nth_empty) simp_all
  have "pile_shard c a (Suc j) =
      ?m\<lparr>buckets := (pile (2 ^ a) j)[j := pile_entry j], slength := int j + 1\<rparr>"
    using assms(2) by (simp add: pile_shard_def pile_Suc)
  then show ?case
    unfolding sj using assms(2) ui e
    by (subst set_loop.simps) (simp add: pile_entry_def del: of_nat_Suc)
next
  case (Suc x)
  then have sj: "s < j" by simp
  let ?m = "pile_shard c a j"
  let ?e = "\<lparr>hdib = makeHDIB (chash j) (word_of_nat (Suc s)), key = ckey j, val = Suc j\<rparr>"
  let ?e' = "\<lparr>hdib = makeHDIB (chash j) (word_of_nat (Suc (Suc s))), key = ckey j, val = Suc j\<rparr>"
  have s16: "Suc s < 65536" "s < 65536"
    using sj assms(1) by simp_all
  have ui: "unat (word_of_nat s :: u64) = s"
    using s16 by (intro unat_index) simp
  have b: "pile (2 ^ a) j ! s = pile_entry s"
    using sj by (rule pile_nth_entry)
  have db: "dib (pile_entry s) = word_of_nat (Suc s)"
    unfolding pile_entry_def using s16(1) by (rule dib_walker)
  have de: "dib ?e = word_of_nat (Suc s)"
    using s16(1) by (rule dib_walker)
  have nz: "(word_of_nat (Suc s) :: u64) \<noteq> 0"
    using word_of_nat_eq_0 [OF s16(1)] by blast
  have kk: "ckey j \<noteq> ckey s"
    using ckey_inj [OF assms(1) s16(2)] sj by auto
  have kb: "key (pile_entry s) = ckey s"
    by (simp add: pile_entry_def)
  have ne: "setDIB ?e (dib ?e + 1) = ?e'"
    unfolding de setDIB_makeHDIB word_of_nat_Suc ..
  have ni: "((word_of_nat s :: u64) + 1) AND smask ?m = word_of_nat (Suc s)"
    unfolding word_of_nat_Suc using sj assms(2,3) by (simp add: and_mask_small del: of_nat_Suc)
  have step: "set_loop ?m ?e (word_of_nat s) =
      set_loop ?m (setDIB ?e (dib ?e + 1)) (((word_of_nat s :: u64) + 1) AND smask ?m)"
    using sj assms(2) nz kk
    by (subst set_loop.simps) (simp add: ui b db de kb del: of_nat_Suc dib_makeHDIB)
  from Suc.hyps(2) sj have "x = j - Suc s" "Suc s \<le> j" by simp_all
  then have "set_loop ?m ?e' (word_of_nat (Suc s)) = Some (Inr ((0, False), pile_shard c a (Suc j)))"
    by (rule Suc.hyps(1))
  then show ?case
    unfolding step ne ni .
qed

lemma set_shard_pile:
  assumes "j < 65536" and "j < 2 ^ a" and "a \<le> 17"
  shows "set_shard (pile_shard c a j) (chash j) (ckey j) (Suc j) =
           Some (Inr ((0, False), pile_shard c a (Suc j)))"
proof -
  have "take_bit 48 (chash j) = chash j"
    using assms(1) by (intro take_bit_48_id chash_less)
  then have "take_bit 48 (chash j) AND mask a = (0 :: u64)"
    using chash_home [OF assms(1,3)] by simp
  moreover have "set_loop (pile_shard c a j)
           \<lparr>hdib = makeHDIB (chash j) (word_of_nat (Suc 0)), key = ckey j, val = Suc j\<rparr>
           (word_of_nat 0) = Some (Inr ((0, False), pile_shard c a (Suc j)))"
    using assms by (rule set_loop_pile) simp
  ultimately show ?thesis
    by (simp add: set_shard_def)
qed


lemma newShard_pow2:
  assumes "3 \<le> a" and "a \<le> 48"
  shows "(newShard (2 ^ a) :: (u64, nat) mapShard) = pile_shard (2 ^ a) a 0"
  using thresholds_pow2 [OF assms] newShard_sz_self [OF assms(1)]
  by (simp add: newShard_def Let_def mask_eq_decr_exp pile_shard_def pile_def)

lemma pile_entry_fields:
  assumes "t < 65535"
  shows "0 < dib (pile_entry t)" and "hash (pile_entry t) = chash t"
    and "key (pile_entry t) = ckey t" and "val (pile_entry t) = Suc t"
proof -
  have t: "Suc t < 65536" "t < 65536"
    using assms by simp_all
  have "dib (pile_entry t) = word_of_nat (Suc t)"
    unfolding pile_entry_def using t(1) by (rule dib_walker)
  moreover have "(word_of_nat (Suc t) :: u64) \<noteq> 0"
    using word_of_nat_eq_0 [OF t(1)] by blast
  ultimately show "0 < dib (pile_entry t)"
    by (simp add: word_greater_zero_iff del: of_nat_Suc)
  have "take_bit 48 (chash t) = chash t"
    using t(2) by (intro take_bit_48_id chash_less)
  then show "hash (pile_entry t) = chash t"
    by (simp add: pile_entry_def)
  show "key (pile_entry t) = ckey t" "val (pile_entry t) = Suc t"
    by (simp_all add: pile_entry_def)
qed

lemma resize_fill_pile:
  assumes "j < 65536" and "j \<le> 2 ^ a" and "a \<le> 17" and "t \<le> j"
  shows "resize_fill (map pile_entry [t..<j] @ replicate r emptyEntry) (pile_shard c a t) =
           Some (Inr (pile_shard c a j))"
  using assms(4)
proof (induction "j - t" arbitrary: t)
  case 0
  then show ?case by simp
next
  case (Suc x)
  then have tj: "t < j" by simp
  then have t: "t < 65535" "t < 65536" "t < 2 ^ a"
    using assms(1,2) by simp_all
  note f = pile_entry_fields [OF t(1)]
  have up: "[t..<j] = t # [Suc t..<j]"
    using tj by (rule upt_conv_Cons)
  have st: "set_shard (pile_shard c a t) (chash t) (ckey t) (Suc t) =
      Some (Inr ((0, False), pile_shard c a (Suc t)))"
    using t(2,3) assms(3) by (rule set_shard_pile)
  from Suc.hyps(2) tj have "x = j - Suc t" "Suc t \<le> j" by simp_all
  then have "resize_fill (map pile_entry [Suc t..<j] @ replicate r emptyEntry)
      (pile_shard c a (Suc t)) = Some (Inr (pile_shard c a j))"
    by (rule Suc.hyps(1))
  then show ?case
    unfolding up using f st by (simp add: bindR_def)
qed

lemma resize_pile:
  assumes "j < 65536" and "j \<le> 2 ^ a" and "2 \<le> a" and "a \<le> 16"
  shows "resize (pile_shard c a j) (int (length (buckets (pile_shard c a j))) * 2) =
           Some (Inr (pile_shard c (Suc a) j))"
proof -
  have n: "newShard (int (length (buckets (pile_shard c a j))) * 2) =
      (pile_shard (2 ^ Suc a) (Suc a) 0 :: (u64, nat) mapShard)"
    using newShard_pow2 [of "Suc a"] assms(2-4) by (simp add: mult.commute)
  have "j \<le> 2 ^ Suc a"
    using assms(2) by simp
  then have "resize_fill (map pile_entry [0..<j] @ replicate (2 ^ a - j) emptyEntry)
      (pile_shard (2 ^ Suc a) (Suc a) 0) = Some (Inr (pile_shard (2 ^ Suc a) (Suc a) j))"
    using assms(1,4) by (intro resize_fill_pile) simp_all
  then show ?thesis
    unfolding resize_def n by (simp add: bindR_def pile_def)
qed

lemma grow_double:
  fixes x :: int
  assumes "0 \<le> x"
  shows "2 * (x * 17 div 20) \<le> (2 * x) * 17 div 20" and "x * 17 div 20 < x \<or> x = 0"
  using assms by linarith+

lemma SetWithHash_pile:
  assumes "3 \<le> a" and "a \<le> 17" and "j < 65536" and "int j \<le> (2 ^ a * 17) div 20"
  shows "\<exists>a'. 3 \<le> a' \<and> a' \<le> 17 \<and> int (Suc j) \<le> (2 ^ a' * 17) div 20 \<and>
           SetWithHash (pile_shard c a j) (chash j) (ckey j) (Suc j) =
             Some (Inr ((0, False), pile_shard c a' (Suc j)))"
proof -
  let ?g = "(2 ^ a * 17) div 20 :: int"
  have "?g < 2 ^ a"
    using grow_double(2) [of "2 ^ a"] by simp
  moreover have "int (2 ^ a) = 2 ^ a"
    by simp
  ultimately have "int j < int (2 ^ a)"
    using assms(4) by linarith
  then have ja: "j < 2 ^ a"
    by (simp only: of_nat_less_iff)
  then have ne: "length (buckets (pile_shard c a j)) \<noteq> 0"
    by simp
  show ?thesis
  proof (cases "int j < ?g")
    case True
    then have "SetWithHash (pile_shard c a j) (chash j) (ckey j) (Suc j) =
        set_shard (pile_shard c a j) (chash j) (ckey j) (Suc j)"
      using ne by (simp add: SetWithHash_def bindR_def)
    also have "\<dots> = Some (Inr ((0, False), pile_shard c a (Suc j)))"
      using assms(3) ja assms(2) by (rule set_shard_pile)
    finally show ?thesis
      using assms(1,2) True by (intro exI [of _ a]) simp
  next
    case False
    with assms(4) have eq: "int j = ?g" by simp
    have a16: "a \<le> 16"
    proof (rule ccontr)
      assume "\<not> a \<le> 16"
      with assms(2) have "a = 17" by simp
      with eq assms(3) show False by simp
    qed
    have "(2 :: int) ^ 3 \<le> 2 ^ a"
      using assms(1) by (intro power_increasing) simp_all
    then have "6 \<le> ?g"
      by simp
    with eq have j6: "6 \<le> int j" by simp
    have r: "resize (pile_shard c a j) (int (length (buckets (pile_shard c a j))) * 2) =
        Some (Inr (pile_shard c (Suc a) j))"
      using assms(3) _ _ a16 by (rule resize_pile) (use ja assms(1) in simp_all)
    have "SetWithHash (pile_shard c a j) (chash j) (ckey j) (Suc j) =
        set_shard (pile_shard c (Suc a) j) (chash j) (ckey j) (Suc j)"
      using ne eq r unfolding SetWithHash_def by (simp add: bindR_def)
    also have "\<dots> = Some (Inr ((0, False), pile_shard c (Suc a) (Suc j)))"
      using assms(3) _ _ by (rule set_shard_pile) (use ja a16 in simp_all)
    finally have "SetWithHash (pile_shard c a j) (chash j) (ckey j) (Suc j) =
        Some (Inr ((0, False), pile_shard c (Suc a) (Suc j)))" .
    moreover have "int (Suc j) \<le> (2 ^ Suc a * 17) div 20"
      using grow_double(1) [of "2 ^ a"] eq j6 by simp
    ultimately show ?thesis
      using assms(1) a16 by (intro exI [of _ "Suc a"]) simp
  qed
qed


lemma SetWithHash_all_append:
  "SetWithHash_all m (xs @ ys) = bindR (SetWithHash_all m xs) (\<lambda>m'. SetWithHash_all m' ys)"
proof (induction xs arbitrary: m)
  case Nil
  show ?case by (simp add: bindR_def)
next
  case (Cons x xs)
  obtain h k v where x: "x = (h, k, v)" by (cases x)
  show ?case
    unfolding x by (cases "SetWithHash m h k v") (auto simp add: bindR_def Cons.IH split: sum.splits)
qed

lemma SetWithHash_all_pile:
  assumes "j \<le> 65536"
  shows "\<exists>a. 3 \<le> a \<and> a \<le> 17 \<and> int j \<le> (2 ^ a * 17) div 20 \<and>
           SetWithHash_all (pile_shard c 3 0) (map (\<lambda>t. (chash t, ckey t, Suc t)) [0..<j]) =
             Some (Inr (pile_shard c a j))"
  using assms
proof (induction j)
  case 0
  show ?case by (intro exI [of _ 3]) simp
next
  case (Suc j)
  then obtain a where a: "3 \<le> a" "a \<le> 17" "int j \<le> (2 ^ a * 17) div 20"
    "SetWithHash_all (pile_shard c 3 0) (map (\<lambda>t. (chash t, ckey t, Suc t)) [0..<j]) =
       Some (Inr (pile_shard c a j))"
    by auto
  from Suc.prems have "j < 65536" by simp
  with a(1-3) obtain a' where a': "3 \<le> a'" "a' \<le> 17" "int (Suc j) \<le> (2 ^ a' * 17) div 20"
    "SetWithHash (pile_shard c a j) (chash j) (ckey j) (Suc j) =
       Some (Inr ((0, False), pile_shard c a' (Suc j)))"
    using SetWithHash_pile [of a j c] by blast
  have "SetWithHash_all (pile_shard c 3 0) (map (\<lambda>t. (chash t, ckey t, Suc t)) [0..<Suc j]) =
      Some (Inr (pile_shard c a' (Suc j)))"
    using a(4) a'(4) by (simp add: SetWithHash_all_append bindR_def)
  with a'(1-3) show ?case by blast
qed

text \<open>
  After \<open>65536\<close> keys the entry of the last key has the displacement field 0, so the
  bucket that holds it reads as empty: lookup and deletion of that key stop there.
\<close>

lemma dib_last: "dib (pile_entry 65535) = 0"
proof -
  have "unat (word_of_nat (Suc 65535) AND mask 16 :: u64) = 0"
    by (simp only: unat_and_mask unat_of_nat) simp
  then show ?thesis
    by (simp add: pile_entry_def unat_eq_0 del: of_nat_Suc)
qed

lemma get_loop_pile:
  assumes "65536 < (2 :: nat) ^ a" and "a \<le> 17" and "s \<le> 65535"
  shows "get_loop (pile_shard c a 65536) (chash 65535) (ckey 65535) (word_of_nat s) =
           Some (Inr (0, False))"
  using assms(3)
proof (induction "65535 - s" arbitrary: s)
  case 0
  then have s: "s = 65535" by simp
  have "unat (word_of_nat 65535 :: u64) = 65535"
    by (intro unat_index) simp
  moreover have "pile (2 ^ a) 65536 ! 65535 = pile_entry 65535"
    by (intro pile_nth_entry) simp
  ultimately show ?case
    unfolding s using assms(1) dib_last
    by (subst get_loop.simps) (simp del: of_nat_numeral)
next
  case (Suc x)
  then have sj: "s < 65535" by simp
  let ?m = "pile_shard c a 65536"
  have ui: "unat (word_of_nat s :: u64) = s"
    using sj by (intro unat_index) simp
  have b: "pile (2 ^ a) 65536 ! s = pile_entry s"
    using sj by (intro pile_nth_entry) simp
  note f = pile_entry_fields [OF sj]
  have nz: "dib (pile_entry s) \<noteq> 0"
    using f(1) by (simp add: word_greater_zero_iff)
  have kk: "ckey s \<noteq> ckey 65535"
    using ckey_inj [of s 65535] sj by auto
  have ni: "((word_of_nat s :: u64) + 1) AND smask ?m = word_of_nat (Suc s)"
    unfolding word_of_nat_Suc using sj assms(1,2) by (simp add: and_mask_small del: of_nat_Suc)
  have step: "get_loop ?m (chash 65535) (ckey 65535) (word_of_nat s) =
      get_loop ?m (chash 65535) (ckey 65535) (((word_of_nat s :: u64) + 1) AND smask ?m)"
    using sj assms(1) nz kk f(3)
    by (subst get_loop.simps) (simp add: ui b del: of_nat_Suc)
  from Suc.hyps(2) sj have "x = 65535 - Suc s" "Suc s \<le> 65535" by simp_all
  then have "get_loop ?m (chash 65535) (ckey 65535) (word_of_nat (Suc s)) = Some (Inr (0, False))"
    by (rule Suc.hyps(1))
  then show ?case
    unfolding step ni .
qed

lemma delete_loop_pile:
  assumes "65536 < (2 :: nat) ^ a" and "a \<le> 17" and "s \<le> 65535"
  shows "delete_loop (pile_shard c a 65536) (chash 65535) (ckey 65535) (word_of_nat s) =
           Some (Inr ((0, False), pile_shard c a 65536))"
  using assms(3)
proof (induction "65535 - s" arbitrary: s)
  case 0
  then have s: "s = 65535" by simp
  have "unat (word_of_nat 65535 :: u64) = 65535"
    by (intro unat_index) simp
  moreover have "pile (2 ^ a) 65536 ! 65535 = pile_entry 65535"
    by (intro pile_nth_entry) simp
  ultimately show ?case
    unfolding s using assms(1) dib_last
    by (subst delete_loop.simps) (simp del: of_nat_numeral)
next
  case (Suc x)
  then have sj: "s < 65535" by simp
  let ?m = "pile_shard c a 65536"
  have ui: "unat (word_of_nat s :: u64) = s"
    using sj by (intro unat_index) simp
  have b: "pile (2 ^ a) 65536 ! s = pile_entry s"
    using sj by (intro pile_nth_entry) simp
  note f = pile_entry_fields [OF sj]
  have nz: "dib (pile_entry s) \<noteq> 0"
    using f(1) by (simp add: word_greater_zero_iff)
  have kk: "ckey s \<noteq> ckey 65535"
    using ckey_inj [of s 65535] sj by auto
  have ni: "((word_of_nat s :: u64) + 1) AND smask ?m = word_of_nat (Suc s)"
    unfolding word_of_nat_Suc using sj assms(1,2) by (simp add: and_mask_small del: of_nat_Suc)
  have step: "delete_loop ?m (chash 65535) (ckey 65535) (word_of_nat s) =
      delete_loop ?m (chash 65535) (ckey 65535) (((word_of_nat s :: u64) + 1) AND smask ?m)"
    using sj assms(1) nz kk f(3)
    by (subst delete_loop.simps) (simp add: ui b del: of_nat_Suc)
  from Suc.hyps(2) sj have "x = 65535 - Suc s" "Suc s \<le> 65535" by simp_all
  then have "delete_loop ?m (chash 65535) (ckey 65535) (word_of_nat (Suc s)) =
      Some (Inr ((0, False), ?m))"
    by (rule Suc.hyps(1))
  then show ?case
    unfolding step ni .
qed


lemma Init_pile_map: "Init (\<lambda>k. k) 1 0 = pile_map 3 0"
proof -
  have "(newShard 0 :: (u64, nat) mapShard) = pile_shard 0 3 0"
    by (simp add: newShard_0 pile_shard_def pile_def mask_eq_exp_minus_1)
  moreover have "replicate 16 x = x # replicate 15 x" for x :: "(u64, nat) mapShard"
    by (simp add: numeral_eq_Suc)
  ultimately show ?thesis
    by (simp add: Init_def Let_def Init_shards_1_16 go_div_def pile_map_def)
qed

lemma Set_pile:
  assumes "3 \<le> a" and "a \<le> 17" and "j < 65536" and "int j \<le> (2 ^ a * 17) div 20"
  shows "\<exists>a'. 3 \<le> a' \<and> a' \<le> 17 \<and> int (Suc j) \<le> (2 ^ a' * 17) div 20 \<and>
           Set (pile_map a j) (ckey j) (Suc j) = Some (Inr ((0, False), pile_map a' (Suc j)))"
proof -
  obtain a' where a': "3 \<le> a'" "a' \<le> 17" "int (Suc j) \<le> (2 ^ a' * 17) div 20"
    "SetWithHash (pile_shard 0 a j) (chash j) (ckey j) (Suc j) =
       Some (Inr ((0, False), pile_shard 0 a' (Suc j)))"
    using SetWithHash_pile [OF assms, of 0] by blast
  have "Set (pile_map a j) (ckey j) (Suc j) =
      on_shard (pile_map a j) 0 (\<lambda>s. SetWithHash s (chash j) (ckey j) (Suc j))"
    using assms(3) by (simp add: Set_on_shard pile_map_def ckey_shard makeHash_ckey)
  also have "\<dots> = Some (Inr ((0, False), pile_map a' (Suc j)))"
    using a'(4) by (simp add: on_shard_def bindR_def pile_map_def)
  finally show ?thesis
    using a'(1-3) by blast
qed

lemma Set_all_append:
  "Set_all m (xs @ ys) = bindR (Set_all m xs) (\<lambda>m'. Set_all m' ys)"
proof (induction xs arbitrary: m)
  case Nil
  show ?case by (simp add: bindR_def)
next
  case (Cons x xs)
  obtain k v where x: "x = (k, v)" by (cases x)
  show ?case
    unfolding x by (cases "Set m k v") (auto simp add: bindR_def Cons.IH split: sum.splits)
qed

lemma pile_pairs_Suc: "pile_pairs (Suc j) = pile_pairs j @ [(ckey j, Suc j)]"
  by (simp add: pile_pairs_def)

lemma Set_all_pile:
  assumes "j \<le> 65536"
  shows "\<exists>a. 3 \<le> a \<and> a \<le> 17 \<and> int j \<le> (2 ^ a * 17) div 20 \<and>
           Set_all (Init (\<lambda>k. k) 1 0) (pile_pairs j) = Some (Inr (pile_map a j))"
  using assms
proof (induction j)
  case 0
  show ?case
    by (intro exI [of _ 3]) (simp add: pile_pairs_def Init_pile_map)
next
  case (Suc j)
  then obtain a where a: "3 \<le> a" "a \<le> 17" "int j \<le> (2 ^ a * 17) div 20"
    "Set_all (Init (\<lambda>k. k) 1 0) (pile_pairs j) = Some (Inr (pile_map a j))"
    by auto
  from Suc.prems have "j < 65536" by simp
  with a(1-3) obtain a' where a': "3 \<le> a'" "a' \<le> 17" "int (Suc j) \<le> (2 ^ a' * 17) div 20"
    "Set (pile_map a j) (ckey j) (Suc j) = Some (Inr ((0, False), pile_map a' (Suc j)))"
    using Set_pile [of a j] by blast
  have "Set_all (Init (\<lambda>k. k) 1 0) (pile_pairs (Suc j)) = Some (Inr (pile_map a' (Suc j)))"
    using a(4) a'(4) by (simp add: pile_pairs_Suc Set_all_append bindR_def)
  with a'(1-3) show ?case by blast
qed

lemma big_table:
  assumes "a \<le> 17" and "int 65536 \<le> (2 ^ a * 17) div 20"
  shows "65536 < (2 :: nat) ^ a"
proof -
  have "(2 ^ a * 17) div 20 < (2 :: int) ^ a"
    using grow_double(2) [of "2 ^ a"] by simp
  moreover have "int (2 ^ a) = 2 ^ a"
    by simp
  ultimately have "int 65536 < int (2 ^ a)"
    using assms(2) by linarith
  then show ?thesis
    by (simp only: of_nat_less_iff)
qed

lemma Len_pile_map: "Len (pile_map a j) = Inr (int j)"
  by (simp add: Len_def pile_map_def Len_shard_def sum_list_replicate)

lemma Get_pile_map:
  assumes "65536 < (2 :: nat) ^ a" and "a \<le> 17"
  shows "Get (pile_map a 65536) (ckey 65535) = Some (Inr (0, False))"
proof -
  have "get_loop (pile_shard 0 a 65536) (chash 65535) (ckey 65535) (word_of_nat 0) =
      Some (Inr (0, False))"
    using assms by (rule get_loop_pile) simp
  moreover have "chash 65535 AND mask a = 0"
    using assms(2) by (intro chash_home) simp_all
  moreover have "length (pile (2 ^ a) 65536) \<noteq> 0"
    using assms(1) by simp
  ultimately show ?thesis
    by (simp add: Get_def choose_shard_def pile_map_def ckey_shard makeHash_ckey GetWithHash_def)
qed

lemma Delete_pile_map:
  assumes "65536 < (2 :: nat) ^ a" and "a \<le> 17"
  shows "Delete (pile_map a 65536) (ckey 65535) = Some (Inr ((0, False), pile_map a 65536))"
proof -
  have "delete_loop (pile_shard 0 a 65536) (chash 65535) (ckey 65535) (word_of_nat 0) =
      Some (Inr ((0, False), pile_shard 0 a 65536))"
    using assms by (rule delete_loop_pile) simp
  moreover have "chash 65535 AND mask a = 0"
    using assms(2) by (intro chash_home) simp_all
  moreover have "length (pile (2 ^ a) 65536) \<noteq> 0"
    using assms(1) by simp
  ultimately show ?thesis
    by (simp add: Delete_on_shard on_shard_def bindR_def pile_map_def ckey_shard makeHash_ckey
        DeleteWithHash_def)
qed

lemma distinct_pile_pairs: "j \<le> 65536 \<Longrightarrow> distinct (map fst (pile_pairs j))"
proof -
  assume j: "j \<le> 65536"
  have "map fst (pile_pairs j) = map ckey [0..<j]"
    by (simp add: pile_pairs_def comp_def)
  moreover have "inj_on ckey (set [0..<j])"
    using j by (auto intro!: inj_onI ckey_inj)
  ultimately show ?thesis
    by (simp add: distinct_map)
qed


lemma length_pile_pairs [simp]: "length (pile_pairs j) = j"
  by (simp add: pile_pairs_def)

text \<open>
  The same on one shard, where the hash is an argument: \<open>m = newShard(0)\<close>, then
  \<open>m.SetWithHash(t << 17, t << 33, t + 1)\<close> for \<open>t = 0, ..., 65535\<close>, then
  \<open>m.GetWithHash(65535 << 17, 65535 << 33)\<close> returns \<open>(0, false)\<close>.
\<close>

lemma GetWithHash_after_SetWithHash_lost:
  "\<exists>m. SetWithHash_all (newShard 0) (map (\<lambda>t. (chash t, ckey t, Suc t)) [0..<65536]) =
          Some (Inr m) \<and>
        slength m = 65536 \<and>
        GetWithHash m (chash 65535) (ckey 65535) = Some (Inr (0, False))"
proof -
  have n: "(newShard 0 :: (u64, nat) mapShard) = pile_shard 0 3 0"
    by (simp add: newShard_0 pile_shard_def pile_def mask_eq_exp_minus_1)
  obtain a where a: "a \<le> 17" "int 65536 \<le> (2 ^ a * 17) div 20"
    "SetWithHash_all (pile_shard 0 3 0) (map (\<lambda>t. (chash t, ckey t, Suc t)) [0..<65536]) =
       Some (Inr (pile_shard 0 a 65536))"
    using SetWithHash_all_pile [of 65536 0] by auto
  have big: "65536 < (2 :: nat) ^ a"
    using a(1,2) by (rule big_table)
  have "get_loop (pile_shard 0 a 65536) (chash 65535) (ckey 65535) (word_of_nat 0) =
      Some (Inr (0, False))"
    using big a(1) by (rule get_loop_pile) simp
  moreover have "chash 65535 AND mask a = 0"
    using a(1) by (intro chash_home) simp_all
  moreover have "length (pile (2 ^ a) 65536) \<noteq> 0"
    using big by simp
  ultimately have "GetWithHash (pile_shard 0 a 65536) (chash 65535) (ckey 65535) =
      Some (Inr (0, False))"
    by (simp add: GetWithHash_def)
  with a(3) show ?thesis
    unfolding n by (intro exI [of _ "pile_shard 0 a 65536"]) simp
qed

text \<open>
  C3 fails on the code. On a machine with one CPU, \<open>New(0)\<close> with the identity as hasher
  and the keys \<open>t * 2 ^ 33\<close>: after \<open>Set(t * 2 ^ 33, t + 1)\<close> for \<open>t = 0, ..., 65534\<close>,
  the call \<open>Set(65535 * 2 ^ 33, 65536)\<close> returns \<open>(0, false)\<close>, a new key, and the
  \<open>Get\<close> of that key that follows at once returns \<open>(0, false)\<close>, not \<open>(65536, true)\<close>.
  All the keys have bucket 0 of shard 0 as home; the last one is carried past 65535
  occupied buckets, its 16-bit displacement field wraps from 65535 to 0, and the bucket
  it is stored in reads as empty.
\<close>

theorem Get_after_Set_lost:
  "\<exists>m0 m. Set_all (Init (\<lambda>k. k) 1 0) (pile_pairs 65535) = Some (Inr m0) \<and>
          Set m0 (ckey 65535) 65536 = Some (Inr ((0, False), m)) \<and>
          Get m (ckey 65535) = Some (Inr (0, False))"
proof -
  obtain a where a: "3 \<le> a" "a \<le> 17" "int 65535 \<le> (2 ^ a * 17) div 20"
    "Set_all (Init (\<lambda>k. k) 1 0) (pile_pairs 65535) = Some (Inr (pile_map a 65535))"
    using Set_all_pile [of 65535] by auto
  obtain a' where a': "a' \<le> 17" "int (Suc 65535) \<le> (2 ^ a' * 17) div 20"
    "Set (pile_map a 65535) (ckey 65535) (Suc 65535) =
       Some (Inr ((0, False), pile_map a' (Suc 65535)))"
    using Set_pile [OF a(1,2) _ a(3)] by auto
  have e: "Suc 65535 = 65536"
    by simp
  have big: "65536 < (2 :: nat) ^ a'"
    using a'(1,2) unfolding e by (rule big_table)
  then have "Get (pile_map a' 65536) (ckey 65535) = Some (Inr (0, False))"
    using a'(1) by (rule Get_pile_map)
  with a(4) a'(3) show ?thesis
    unfolding e by blast
qed

text \<open>
  C5 fails on the code. With the same map and the same \<open>N = 65536\<close> pairwise distinct
  keys, \<open>Len\<close> is \<open>65536\<close> after the \<open>Set\<close> calls; \<open>Delete\<close> of the last of these keys
  then returns \<open>(0, false)\<close> and removes nothing, so \<open>Len\<close> is still \<open>65536\<close> after
  \<open>M = 1\<close> deletions, not \<open>N - M = 65535\<close>.
\<close>

theorem Len_after_Delete_stale:
  "distinct (map fst (pile_pairs 65536)) \<and> length (pile_pairs 65536) = 65536 \<and>
   ckey 65535 \<in> fst ` set (pile_pairs 65536) \<and>
   (\<exists>m m'. Set_all (Init (\<lambda>k. k) 1 0) (pile_pairs 65536) = Some (Inr m) \<and>
      Len m = Inr 65536 \<and>
      Delete m (ckey 65535) = Some (Inr ((0, False), m')) \<and>
      Len m' = Inr 65536)"
proof -
  obtain a where a: "a \<le> 17" "int 65536 \<le> (2 ^ a * 17) div 20"
    "Set_all (Init (\<lambda>k. k) 1 0) (pile_pairs 65536) = Some (Inr (pile_map a 65536))"
    using Set_all_pile [of 65536] by auto
  have big: "65536 < (2 :: nat) ^ a"
    using a(1,2) by (rule big_table)
  have d: "Delete (pile_map a 65536) (ckey 65535) = Some (Inr ((0, False), pile_map a 65536))"
    using big a(1) by (rule Delete_pile_map)
  have l: "Len (pile_map a 65536) = Inr 65536"
    using Len_pile_map [of a 65536] by simp
  have e: "(65536 :: nat) = Suc 65535"
    by simp
  have "ckey 65535 \<in> fst ` set (pile_pairs (Suc 65535))"
    unfolding pile_pairs_Suc by simp
  then have "ckey 65535 \<in> fst ` set (pile_pairs 65536)"
    by (simp only: e [symmetric])
  moreover have "distinct (map fst (pile_pairs 65536))"
    by (rule distinct_pile_pairs) simp
  ultimately show ?thesis
    using a(3) d l by auto
qed

end
